theory Spec2Isabelle
  imports Main "HOL-Library.Word"
begin

unbundle bit_operations_syntax

section \<open>Bytes\<close>

text \<open>
  A C \<open>char\<close> is an 8-bit word; a Ruby string is the list of its bytes. All integers are
  written in the byte order of the host, which is taken to be little-endian (the encoder
  copies \<open>(char*)&value\<close>).
\<close>

type_synonym byte = "8 word"
type_synonym bytes = "byte list"

definition bytes_of :: "string \<Rightarrow> bytes" where
  "bytes_of s = map of_char s"

definition le_bytes :: "nat \<Rightarrow> int \<Rightarrow> bytes" where
  \<comment> \<open>the low \<open>n\<close> bytes of a two's complement integer, least significant first\<close>
  "le_bytes n i = map (\<lambda>k. word_of_int (i div 256 ^ k)) [0..<n]"

fun le_uint :: "bytes \<Rightarrow> int" where
  "le_uint [] = 0"
| "le_uint (b # bs) = uint b + 256 * le_uint bs"

definition cstr :: "bytes \<Rightarrow> bytes" where
  \<comment> \<open>what \<open>strlen\<close>, \<open>strcmp\<close> and \<open>rb_str_new2\<close> see of a byte sequence: the bytes before
      the first NUL\<close>
  "cstr s = takeWhile (\<lambda>b. b \<noteq> 0) s"

fun INT2STRING :: "nat \<Rightarrow> bytes" where
  "INT2STRING i = (if i < 10 then [48 + of_nat i]
                   else INT2STRING (i div 10) @ [48 + of_nat (i mod 10)])"

declare INT2STRING.simps [simp del]

section \<open>Host values\<close>

text \<open>
  The Ruby values the codec dispatches on. \<open>VHash\<close> is a \<open>Hash\<close> or a
  \<open>BSON::OrderedHash\<close> (both have \<open>TYPE\<close> \<open>T_HASH\<close> and both are walked in insertion
  order), as the list of its entries. \<open>VFloat\<close> carries the 64 bits of the double.
  \<open>VTime\<close> carries the instant in milliseconds, that is \<open>round(to_f * 1000)\<close>.
  \<open>VTimestamp\<close> carries what the methods \<open>seconds\<close> and \<open>increment\<close> return, which are
  any values. \<open>VBinary\<close> carries the
  data and the Fixnum subtype, \<open>VObjectId\<close> the bytes of \<open>to_a\<close>. The two regex variants
  carry pattern, options and the result of \<open>extra_options_str\<close> when the object responds
  to it. \<open>VObject\<close>, \<open>VData\<close> and \<open>VOther\<close> are objects of \<open>TYPE\<close> \<open>T_OBJECT\<close>,
  \<open>T_DATA\<close> (other than \<open>Time\<close>) and of any other \<open>TYPE\<close>, of a class the encoder has no
  branch for.
\<close>

datatype key = KString bytes | KSymbol bytes | KOther

datatype val =
    VInteger int
  | VBoolean bool
  | VFloat "64 word"
  | VNil
  | VHash "(key \<times> val) list"
  | VArray "val list"
  | VString bytes
  | VSymbol bytes
  | VBinary bytes int
  | VByteBuffer bytes
  | VObjectId bytes
  | VDBRef val val
  | VCode bytes val
  | VMaxKey
  | VMinKey
  | VTimestamp val val
  | VTime int
  | VMultibyteChars bytes
  | VRegexp bytes int "bytes option"
  | VBSONRegex bytes int "bytes option"
  | VObject string
  | VData string
  | VOther string

text \<open>
  What the extension takes from the host and from Ruby files that are not part of the
  C source: the option bits of native regular expressions (\<open>regex.h\<close> or Oniguruma), the
  constants of \<open>BSON::Regex\<close>, its constructor from a pattern and a flag string, its
  \<open>try_compile\<close> method, and the conversion \<open>NUM2UINT\<close>. The last two can raise.
\<close>

datatype rb_error =
    NoMemError | RuntimeError | TypeError | RangeError | NoMethodError | ArgumentError
  | InvalidKeyName | InvalidStringEncoding | InvalidDocument

record host =
  IGNORECASE :: int
  MULTILINE :: int
  EXTENDED :: int
  BSONRegex_IGNORECASE :: int
  BSONRegex_EXTENDED :: int
  BSONRegex_MULTILINE :: int
  BSONRegex_DOTALL :: int
  BSONRegex_LOCALE_DEPENDENT :: int
  BSONRegex_UNICODE :: int
  regex_new :: "bytes \<Rightarrow> bytes \<Rightarrow> val"
  try_compile :: "val \<Rightarrow> rb_error + val"
  NUM2UINT :: "val \<Rightarrow> rb_error + 32 word"


text \<open>
  A raise is the error together with whether \<open>bson_buffer_free\<close> was called on the
  encoder's buffer before \<open>rb_raise\<close>. No bytes come with it.
\<close>

type_synonym 'a raises = "(rb_error \<times> bool) + 'a"

fun and_then :: "'e + 'a \<Rightarrow> ('a \<Rightarrow> 'e + 'b) \<Rightarrow> 'e + 'b" where
  "and_then (Inl e) f = Inl e"
| "and_then (Inr x) f = f x"

definition host_call :: "rb_error + 'a \<Rightarrow> 'a raises" where
  \<comment> \<open>an exception raised inside the host unwinds through the encoder, which has made no
      call of \<open>bson_buffer_free\<close> for it\<close>
  "host_call r = (case r of Inl e \<Rightarrow> Inl (e, False) | Inr x \<Rightarrow> Inr x)"

section \<open>The byte buffer\<close>

text \<open>
  Modelled from the spec: \<open>bson_buffer.c\<close> is not among the sources. The buffer is
  append-only and growable, with a cursor, a reservation of a slot that is patched
  later, and a per-call maximal size that it only stores. Every operation can fail for
  lack of memory: \<open>avail\<close> is the number of bytes the allocator grants to this buffer.
  A failing operation returns non-zero (\<open>None\<close> here); the reserved bytes are
  uninitialised until patched (zero here).
\<close>

record bson_buffer =
  buffer :: bytes
  max_size :: int
  avail :: nat

definition bson_buffer_new :: "nat \<Rightarrow> bson_buffer" where
  "bson_buffer_new mem = \<lparr>buffer = [], max_size = 0, avail = mem\<rparr>"

definition bson_buffer_set_max_size :: "bson_buffer \<Rightarrow> int \<Rightarrow> bson_buffer" where
  "bson_buffer_set_max_size b n = b\<lparr>max_size := n\<rparr>"

definition bson_buffer_get_max_size :: "bson_buffer \<Rightarrow> int" where
  "bson_buffer_get_max_size b = max_size b"

definition bson_buffer_get_position :: "bson_buffer \<Rightarrow> nat" where
  "bson_buffer_get_position b = length (buffer b)"

definition bson_buffer_write :: "bson_buffer \<Rightarrow> bytes \<Rightarrow> bson_buffer option" where
  "bson_buffer_write b data =
     (if length (buffer b) + length data \<le> avail b
      then Some (b\<lparr>buffer := buffer b @ data\<rparr>) else None)"

definition bson_buffer_save_space :: "bson_buffer \<Rightarrow> nat \<Rightarrow> (nat \<times> bson_buffer) option" where
  "bson_buffer_save_space b n =
     (if length (buffer b) + n \<le> avail b
      then Some (length (buffer b), b\<lparr>buffer := buffer b @ replicate n 0\<rparr>) else None)"

definition patch :: "bytes \<Rightarrow> nat \<Rightarrow> bytes \<Rightarrow> bytes" where
  "patch bs pos data = take pos bs @ data @ drop (pos + length data) bs"

definition bson_buffer_write_at_position ::
  "bson_buffer \<Rightarrow> nat \<Rightarrow> bytes \<Rightarrow> bson_buffer option" where
  "bson_buffer_write_at_position b pos data =
     (if pos + length data \<le> length (buffer b)
      then Some (b\<lparr>buffer := patch (buffer b) pos data\<rparr>) else None)"

definition SAFE_WRITE :: "bson_buffer \<Rightarrow> bytes \<Rightarrow> bson_buffer raises" where
  "SAFE_WRITE b data =
     (case bson_buffer_write b data of None \<Rightarrow> Inl (NoMemError, False) | Some b' \<Rightarrow> Inr b')"

definition SAFE_WRITE_AT_POS :: "bson_buffer \<Rightarrow> nat \<Rightarrow> bytes \<Rightarrow> bson_buffer raises" where
  "SAFE_WRITE_AT_POS b pos data =
     (case bson_buffer_write_at_position b pos data of
        None \<Rightarrow> Inl (RuntimeError, False) | Some b' \<Rightarrow> Inr b')"

section \<open>UTF-8 validation\<close>

text \<open>
  Modelled from the spec: \<open>encoding_helpers.c\<close> is not among the sources. The validator
  classifies a byte slice as \<open>VALID\<close>, \<open>HAS_NULL\<close> or \<open>INVALID_UTF8\<close>; an embedded NUL is
  reported when NULs are not allowed, and any sequence that does not conform to
  RFC 3629 is invalid (the well-formed byte sequences of its section 4). The slice is
  scanned from the left and the first finding is returned.
\<close>

datatype result_t = VALID | HAS_NULL | INVALID_UTF8

definition cont :: "byte \<Rightarrow> nat \<Rightarrow> nat \<Rightarrow> bool" where
  "cont b lo hi = (lo \<le> unat b \<and> unat b \<le> hi)"

fun validate_utf8_encoding :: "bytes \<Rightarrow> bool \<Rightarrow> result_t" where
  "validate_utf8_encoding [] allow_null = VALID"
| "validate_utf8_encoding (b # bs) allow_null =
     (let c = unat b in
      if c = 0 \<and> \<not> allow_null then HAS_NULL
      else if c < 0x80 then validate_utf8_encoding bs allow_null
      else if 0xC2 \<le> c \<and> c \<le> 0xDF then
        (case bs of b1 # r \<Rightarrow>
           if cont b1 0x80 0xBF then validate_utf8_encoding r allow_null else INVALID_UTF8
         | _ \<Rightarrow> INVALID_UTF8)
      else if 0xE0 \<le> c \<and> c \<le> 0xEF then
        (case bs of b1 # b2 # r \<Rightarrow>
           if cont b1 (if c = 0xE0 then 0xA0 else 0x80) (if c = 0xED then 0x9F else 0xBF)
              \<and> cont b2 0x80 0xBF
           then validate_utf8_encoding r allow_null else INVALID_UTF8
         | _ \<Rightarrow> INVALID_UTF8)
      else if 0xF0 \<le> c \<and> c \<le> 0xF4 then
        (case bs of b1 # b2 # b3 # r \<Rightarrow>
           if cont b1 (if c = 0xF0 then 0x90 else 0x80) (if c = 0xF4 then 0x8F else 0xBF)
              \<and> cont b2 0x80 0xBF \<and> cont b3 0x80 0xBF
           then validate_utf8_encoding r allow_null else INVALID_UTF8
         | _ \<Rightarrow> INVALID_UTF8)
      else INVALID_UTF8)"

section \<open>The encoder\<close>

definition write_utf8 :: "bson_buffer \<Rightarrow> bytes \<Rightarrow> bool \<Rightarrow> bson_buffer raises" where
  "write_utf8 b string allow_null =
     (case validate_utf8_encoding string allow_null of
        HAS_NULL \<Rightarrow> Inl (InvalidDocument, True)
      | INVALID_UTF8 \<Rightarrow> Inl (InvalidStringEncoding, True)
      | VALID \<Rightarrow> SAFE_WRITE b string)"

definition write_name_and_type :: "bson_buffer \<Rightarrow> bytes \<Rightarrow> byte \<Rightarrow> bson_buffer raises" where
  "write_name_and_type b name type =
     and_then (SAFE_WRITE b [type]) (\<lambda>b.
     and_then (write_utf8 b name False) (\<lambda>b.
     SAFE_WRITE b [0]))"

definition flag_set :: "int \<Rightarrow> int \<Rightarrow> bool" where
  \<comment> \<open>the C condition \<open>flags & MASK\<close>\<close>
  "flag_set flags m = (flags AND m \<noteq> 0)"

definition write_if :: "bool \<Rightarrow> bytes \<Rightarrow> bson_buffer \<Rightarrow> bson_buffer raises" where
  "write_if c data b = (if c then SAFE_WRITE b data else Inr b)"

definition serialize_regex ::
  "host \<Rightarrow> bson_buffer \<Rightarrow> bytes \<Rightarrow> bytes \<Rightarrow> int \<Rightarrow> bytes option \<Rightarrow> bool \<Rightarrow> bson_buffer raises" where
  \<comment> \<open>\<open>extra\<close> is the value's \<open>extra_options_str\<close> when it responds to it; \<open>qsort\<close> with
      \<open>cmp_char\<close> orders the appended bytes as signed chars\<close>
  "serialize_regex h b key pattern flags extra native =
     and_then (write_name_and_type b key 0x0B) (\<lambda>b.
     and_then (write_utf8 b pattern False) (\<lambda>b.
     and_then (SAFE_WRITE b [0]) (\<lambda>b.
     and_then
       (if native then
          and_then (SAFE_WRITE b (bytes_of ''m'')) (\<lambda>b.
          and_then (write_if (flag_set flags (IGNORECASE h)) (bytes_of ''i'') b) (\<lambda>b.
          and_then (write_if (flag_set flags (MULTILINE h)) (bytes_of ''s'') b) (\<lambda>b.
          write_if (flag_set flags (EXTENDED h)) (bytes_of ''x'') b)))
        else
          and_then (write_if (flag_set flags (BSONRegex_IGNORECASE h)) (bytes_of ''i'') b) (\<lambda>b.
          and_then (write_if (flag_set flags (BSONRegex_LOCALE_DEPENDENT h)) (bytes_of ''l'') b) (\<lambda>b.
          and_then (write_if (flag_set flags (BSONRegex_MULTILINE h)) (bytes_of ''m'') b) (\<lambda>b.
          and_then (write_if (flag_set flags (BSONRegex_DOTALL h)) (bytes_of ''s'') b) (\<lambda>b.
          and_then (write_if (flag_set flags (BSONRegex_UNICODE h)) (bytes_of ''u'') b) (\<lambda>b.
          write_if (flag_set flags (BSONRegex_EXTENDED h)) (bytes_of ''x'') b))))))
       (\<lambda>b.
     and_then
       (case extra of
          None \<Rightarrow> Inr b
        | Some e \<Rightarrow> SAFE_WRITE b (sort_key sint e))
       (\<lambda>b.
     SAFE_WRITE b [0])))))"

definition id_str :: key where "id_str = KString (bytes_of ''_id'')"
definition id_sym :: key where "id_sym = KSymbol (bytes_of ''_id'')"

definition oid_bytes :: "bytes \<Rightarrow> bytes" where
  \<comment> \<open>entries 0 to 11 of \<open>to_a\<close>; an entry beyond the array is \<open>nil\<close>, and
      \<open>(char)FIX2INT(Qnil)\<close> is 2 where \<open>Qnil\<close> is 4\<close>
  "oid_bytes data = take 12 (data @ replicate 12 2)"

definition string_element :: "bson_buffer \<Rightarrow> bytes \<Rightarrow> bytes \<Rightarrow> bson_buffer raises" where
  \<comment> \<open>the body shared by \<open>T_STRING\<close> and \<open>ActiveSupport::Multibyte::Chars\<close>\<close>
  "string_element b key s =
     and_then (write_name_and_type b key 0x02) (\<lambda>b.
     and_then (SAFE_WRITE b (le_bytes 4 (int (length s) + 1))) (\<lambda>b.
     and_then (write_utf8 b s True) (\<lambda>b.
     SAFE_WRITE b [0])))"

definition binary_element :: "bson_buffer \<Rightarrow> bytes \<Rightarrow> bytes \<Rightarrow> byte \<Rightarrow> bson_buffer raises" where
  "binary_element b key string_data subtype =
     (let len = int (length string_data) in
      and_then (write_name_and_type b key 0x05) (\<lambda>b.
      and_then
        (if subtype = 2 then
           and_then (SAFE_WRITE b (le_bytes 4 (len + 4))) (\<lambda>b. SAFE_WRITE b [subtype])
         else Inr b) (\<lambda>b.
      and_then (SAFE_WRITE b (le_bytes 4 len)) (\<lambda>b.
      and_then (if subtype \<noteq> 2 then SAFE_WRITE b [subtype] else Inr b) (\<lambda>b.
      SAFE_WRITE b string_data)))))"

definition fixnum :: "int \<Rightarrow> bool" where
  \<comment> \<open>\<open>TYPE(value) == T_FIXNUM\<close> for an Integer, on a host with 64-bit \<open>long\<close>; a host with
      a 32-bit \<open>long\<close> has 30 in place of 62\<close>
  "fixnum n = (- (2 ^ 62) \<le> n \<and> n < 2 ^ 62)"

definition comma_expression_is_zero :: bool where
  \<comment> \<open>the C condition \<open>(rb_obj_classname(hash), "Hash") == 0\<close>: the comma operator yields
      the string literal, which is not a null pointer\<close>
  "comma_expression_is_zero = False"

definition has_key :: "val \<Rightarrow> key \<Rightarrow> bool option" where
  \<comment> \<open>\<open>rb_funcall(hash, rb_intern("has_key?"), 1, key)\<close>; a value that is not a hash does
      not respond to the method (\<open>None\<close>)\<close>
  "has_key hash k = (case hash of VHash kvs \<Rightarrow> Some (k \<in> fst ` set kvs) | _ \<Rightarrow> None)"

definition rb_hash_aref :: "val \<Rightarrow> key \<Rightarrow> val" where
  "rb_hash_aref hash k =
     (case hash of
        VHash kvs \<Rightarrow> (case map_of kvs k of Some v \<Rightarrow> v | None \<Rightarrow> VNil)
      | _ \<Rightarrow> VNil)"

definition coalesce_id :: "val \<Rightarrow> val" where
  \<comment> \<open>the guarded block of \<open>write_doc\<close>: when the hash has both keys,
      \<open>oid_sym = rb_hash_delete(hash, id_sym); hash[id_str] = oid_sym\<close>\<close>
  "coalesce_id hash =
     (case hash of
        VHash kvs \<Rightarrow>
          if has_key hash id_str = Some True \<and> has_key hash id_sym = Some True then
            (let oid_sym = rb_hash_aref hash id_sym;
                 rest = filter (\<lambda>kv. fst kv \<noteq> id_sym) kvs
             in VHash (map (\<lambda>kv. if fst kv = id_str then (id_str, oid_sym) else kv) rest))
          else hash
      | _ \<Rightarrow> hash)"

definition key_name :: "key \<Rightarrow> bytes option" where
  \<comment> \<open>a symbol is replaced by \<open>rb_str_new2(rb_id2name(SYM2ID(key)))\<close>; then the key must be a
      string\<close>
  "key_name key =
     (case key of KString s \<Rightarrow> Some s | KSymbol s \<Rightarrow> Some (cstr s) | KOther \<Rightarrow> None)"

definition finish_length ::
  "bson_buffer \<Rightarrow> nat \<Rightarrow> nat \<Rightarrow> bson_buffer raises" where
  \<comment> \<open>"write null byte and fill in length", as the array and DBRef branches do\<close>
  "finish_length b start_position length_location =
     and_then (SAFE_WRITE b [0]) (\<lambda>b.
     SAFE_WRITE_AT_POS b length_location
       (le_bytes 4 (int (bson_buffer_get_position b) - int start_position)))"

function
  write_element ::
    "host \<Rightarrow> key \<Rightarrow> val \<Rightarrow> bson_buffer \<Rightarrow> bool \<Rightarrow> bool \<Rightarrow> bson_buffer raises"
  and write_value :: "host \<Rightarrow> bytes \<Rightarrow> val \<Rightarrow> bson_buffer \<Rightarrow> bool \<Rightarrow> bson_buffer raises"
  and write_doc :: "host \<Rightarrow> bson_buffer \<Rightarrow> val \<Rightarrow> bool \<Rightarrow> bool \<Rightarrow> bson_buffer raises"
  and rb_hash_foreach ::
    "host \<Rightarrow> (key \<times> val) list \<Rightarrow> bool \<Rightarrow> bson_buffer \<Rightarrow> bool \<Rightarrow> bson_buffer raises"
  and write_items :: "host \<Rightarrow> nat \<Rightarrow> val list \<Rightarrow> bson_buffer \<Rightarrow> bool \<Rightarrow> bson_buffer raises"
where
  "write_element h key v b check_keys allow_id =
     (case key_name key of
        None \<Rightarrow> Inl (TypeError, True)
      | Some key \<Rightarrow>
          if \<not> allow_id \<and> cstr key = bytes_of ''_id'' then Inr b
          else if check_keys \<and> key \<noteq> [] \<and> hd key = 0x24 then Inl (InvalidKeyName, True)
          else if check_keys \<and> 0x2E \<in> set key then Inl (InvalidKeyName, True)
          else write_value h key v b check_keys)"
| "write_value h key (VInteger n) b check_keys =
     (if \<not> fixnum n \<and> (n > 9223372036854775807 \<or> n < - 9223372036854775808)
      then Inl (RangeError, True)
      else if n > 2147483647 \<or> n < - 2147483648 then
        and_then (write_name_and_type b key 0x12) (\<lambda>b. SAFE_WRITE b (le_bytes 8 n))
      else
        and_then (write_name_and_type b key 0x10) (\<lambda>b. SAFE_WRITE b (le_bytes 4 n)))"
| "write_value h key (VBoolean t) b check_keys =
     and_then (write_name_and_type b key 0x08) (\<lambda>b.
     SAFE_WRITE b [if t then 1 else 0])"
| "write_value h key (VFloat d) b check_keys =
     and_then (write_name_and_type b key 0x01) (\<lambda>b.
     SAFE_WRITE b (le_bytes 8 (uint d)))"
| "write_value h key VNil b check_keys = write_name_and_type b key 0x0A"
| "write_value h key (VHash kvs) b check_keys =
     and_then (write_name_and_type b key 0x03) (\<lambda>b.
     write_doc h b (VHash kvs) check_keys False)"
| "write_value h key (VArray items) b check_keys =
     and_then (write_name_and_type b key 0x04) (\<lambda>b.
     let start_position = bson_buffer_get_position b in
     case bson_buffer_save_space b 4 of
       None \<Rightarrow> Inl (NoMemError, False)
     | Some (length_location, b) \<Rightarrow>
         and_then (write_items h 0 items b check_keys) (\<lambda>b.
         finish_length b start_position length_location))"
| "write_value h key (VString s) b check_keys = string_element b key s"
| "write_value h key (VSymbol s) b check_keys =
     (let str_value = cstr s; len = int (length str_value) + 1 in
      and_then (write_name_and_type b key 0x0E) (\<lambda>b.
      and_then (SAFE_WRITE b (le_bytes 4 len)) (\<lambda>b.
      SAFE_WRITE b (str_value @ [0]))))"
| "write_value h key (VBinary string_data subtype) b check_keys =
     binary_element b key string_data (word_of_int subtype)"
| "write_value h key (VByteBuffer string_data) b check_keys =
     binary_element b key string_data 2"
| "write_value h key (VObjectId data) b check_keys =
     and_then (write_name_and_type b key 0x07) (\<lambda>b.
     SAFE_WRITE b (oid_bytes data))"
| "write_value h key (VDBRef ns oid) b check_keys =
     and_then (write_name_and_type b key 0x03) (\<lambda>b.
     let start_position = bson_buffer_get_position b in
     case bson_buffer_save_space b 4 of
       None \<Rightarrow> Inl (NoMemError, False)
     | Some (length_location, b) \<Rightarrow>
         and_then (write_element h (KString (bytes_of ''$ref'')) ns b False True) (\<lambda>b.
         and_then (write_element h (KString (bytes_of ''$id'')) oid b False True) (\<lambda>b.
         finish_length b start_position length_location)))"
| "write_value h key (VCode code_str scope) b check_keys =
     and_then (write_name_and_type b key 0x0F) (\<lambda>b.
     let start_position = bson_buffer_get_position b in
     case bson_buffer_save_space b 4 of
       None \<Rightarrow> Inl (NoMemError, False)
     | Some (length_location, b) \<Rightarrow>
         and_then (SAFE_WRITE b (le_bytes 4 (int (length code_str) + 1))) (\<lambda>b.
         and_then (SAFE_WRITE b code_str) (\<lambda>b.
         and_then (SAFE_WRITE b [0]) (\<lambda>b.
         and_then (write_doc h b scope False False) (\<lambda>b.
         SAFE_WRITE_AT_POS b length_location
           (le_bytes 4 (int (bson_buffer_get_position b) - int start_position)))))))"
| "write_value h key VMaxKey b check_keys = write_name_and_type b key 0x7F"
| "write_value h key VMinKey b check_keys = write_name_and_type b key 0xFF"
| "write_value h key (VTimestamp seconds incr) b check_keys =
     and_then (write_name_and_type b key 0x11) (\<lambda>b.
     and_then (host_call (NUM2UINT h seconds)) (\<lambda>seconds.
     and_then (host_call (NUM2UINT h incr)) (\<lambda>incr.
     and_then (SAFE_WRITE b (le_bytes 4 (uint incr))) (\<lambda>b.
     SAFE_WRITE b (le_bytes 4 (uint seconds))))))"
| "write_value h key (VTime time_since_epoch) b check_keys =
     and_then (write_name_and_type b key 0x09) (\<lambda>b.
     SAFE_WRITE b (le_bytes 8 time_since_epoch))"
| "write_value h key (VMultibyteChars s) b check_keys = string_element b key s"
| "write_value h key (VRegexp pattern flags extra) b check_keys =
     serialize_regex h b key pattern flags extra True"
| "write_value h key (VBSONRegex pattern options extra) b check_keys =
     serialize_regex h b key pattern options extra False"
| "write_value h key (VObject cls) b check_keys = Inl (InvalidDocument, True)"
| "write_value h key (VData cls) b check_keys = Inl (InvalidDocument, True)"
| "write_value h key (VOther cls) b check_keys = Inl (InvalidDocument, True)"
| "write_doc h b hash check_keys move_id =
     (let start_position = bson_buffer_get_position b in
      case bson_buffer_save_space b 4 of
        None \<Rightarrow> Inl (NoMemError, False)
      | Some (length_location, b) \<Rightarrow>
          and_then
            (if move_id then
               (case has_key hash id_str of
                  None \<Rightarrow> Inl (NoMethodError, False)
                | Some True \<Rightarrow>
                    write_element h id_str (rb_hash_aref hash id_str) b check_keys True
                | Some False \<Rightarrow>
                    (case has_key hash id_sym of
                       None \<Rightarrow> Inl (NoMethodError, False)
                     | Some True \<Rightarrow>
                         write_element h id_sym (rb_hash_aref hash id_sym) b check_keys True
                     | Some False \<Rightarrow> Inr b))
             else Inr b) (\<lambda>b.
          let hash = (if \<not> move_id \<and> comma_expression_is_zero then coalesce_id hash else hash);
              allow_id = (\<not> move_id)
          in
          and_then
            (case hash of
               VHash kvs \<Rightarrow> rb_hash_foreach h kvs allow_id b check_keys
             | _ \<Rightarrow> Inl (InvalidDocument, True)) (\<lambda>b.
          and_then (SAFE_WRITE b [0]) (\<lambda>b.
          let len = int (bson_buffer_get_position b) - int start_position;
              max_size = bson_buffer_get_max_size b
          in
          if len > max_size then Inl (InvalidDocument, True)
          else SAFE_WRITE_AT_POS b length_location (le_bytes 4 len)))))"
| "rb_hash_foreach h [] allow_id b check_keys = Inr b"
| "rb_hash_foreach h ((key, v) # rest) allow_id b check_keys =
     and_then (write_element h key v b check_keys allow_id) (\<lambda>b.
     rb_hash_foreach h rest allow_id b check_keys)"
| "write_items h i [] b check_keys = Inr b"
| "write_items h i (item # rest) b check_keys =
     and_then (write_element h (KString (INT2STRING i)) item b check_keys True) (\<lambda>b.
     write_items h (Suc i) rest b check_keys)"
  by pat_completeness auto

lemma map_of_size:
  "map_of kvs k = Some v \<Longrightarrow> size v < size_list (size_prod (\<lambda>x. 0) size) kvs"
  by (induction kvs) (auto split: if_splits)

lemma rb_hash_aref_size:
  "has_key hash k = Some True \<Longrightarrow> size (rb_hash_aref hash k) < size hash"
proof (cases hash)
  case (VHash kvs)
  assume "has_key hash k = Some True"
  with VHash have "k \<in> fst ` set kvs" by (simp add: has_key_def)
  then obtain v where v: "map_of kvs k = Some v"
    by (cases "map_of kvs k") (auto simp: map_of_eq_None_iff)
  from map_of_size [OF v] VHash v show ?thesis by (simp add: rb_hash_aref_def)
qed (simp_all add: has_key_def)

termination write_element
  apply (relation "measure (\<lambda>x. case x of
      Inl (Inl (h, k, v, r)) \<Rightarrow> 3 * size v + 2
    | Inl (Inr (h, k, v, r)) \<Rightarrow> 3 * size v + 1
    | Inr (Inl (h, b, v, r)) \<Rightarrow> 3 * size v
    | Inr (Inr (Inl (h, kvs, r))) \<Rightarrow> 3 * size_list (size_prod (\<lambda>x. 0) size) kvs + 2
    | Inr (Inr (Inr (h, i, xs, r))) \<Rightarrow> 3 * size_list size xs + 2)")
  apply (simp_all add: comma_expression_is_zero_def)
  subgoal for b hash using rb_hash_aref_size [of hash id_str] by simp
  subgoal for b hash using rb_hash_aref_size [of hash id_sym] by simp
  subgoal for b hash by (cases hash) simp_all
  done

declare write_element.simps [simp del] write_doc.simps [simp del]

definition method_serialize ::
  "host \<Rightarrow> nat option \<Rightarrow> val \<Rightarrow> bool \<Rightarrow> bool \<Rightarrow> int \<Rightarrow> bytes raises" where
  \<comment> \<open>\<open>mem\<close> is \<open>None\<close> when \<open>bson_buffer_new\<close> returns \<open>NULL\<close>, and otherwise what the
      allocator grants; \<open>check_keys\<close> and \<open>move_id\<close> are the tests against \<open>Qtrue\<close>,
      \<open>max_sz\<close> is \<open>FIX2INT(max_size)\<close>\<close>
  "method_serialize h mem doc check_keys move_id max_sz =
     (case mem of
        None \<Rightarrow> Inl (NoMemError, False)
      | Some m \<Rightarrow>
          (let b = bson_buffer_set_max_size (bson_buffer_new m) max_sz in
           and_then (write_doc h b doc check_keys move_id) (\<lambda>b.
           Inr (take (bson_buffer_get_position b) (buffer b)))))"

section \<open>The decoder\<close>

text \<open>
  The input is the byte string \<open>bson\<close>; a C pointer into it is the string together with
  an offset \<open>base\<close>, and \<open>buffer[position]\<close> is the byte at \<open>base + position\<close>. A read at
  an index outside the string has no defined result in C: it is the fault
  \<open>OutOfBounds\<close>. Positions, lengths and sizes are C \<open>int\<close>s: every sum and difference
  of them is reduced to 32 bits (\<open>int32\<close>), which is what the compiled code does, while
  pointer arithmetic is not. The decoder's loops need not end (a length read from the
  input can move the position backwards), so every function takes fuel, and running out
  of it is the fault \<open>Fuel\<close>. \<open>STR_NEW\<close> and \<open>rb_str_new\<close> raise \<open>ArgumentError\<close> for a
  negative length; the re-encoding that \<open>STR_NEW\<close> applies for the host's internal
  encoding is left out.
\<close>

datatype fault = Raise rb_error | OutOfBounds | Fuel

definition int32 :: "int \<Rightarrow> int" where
  "int32 i = sint (word_of_int i :: 32 word)"

definition byte_at :: "bytes \<Rightarrow> int \<Rightarrow> fault + byte" where
  "byte_at buf p =
     (if 0 \<le> p \<and> p < int (length buf) then Inr (buf ! nat p) else Inl OutOfBounds)"

definition bytes_at :: "bytes \<Rightarrow> int \<Rightarrow> nat \<Rightarrow> fault + bytes" where
  \<comment> \<open>\<open>memcpy\<close> of \<open>n\<close> bytes from index \<open>p\<close>\<close>
  "bytes_at buf p n =
     (if n = 0 then Inr []
      else if 0 \<le> p \<and> p + int n \<le> int (length buf) then Inr (take n (drop (nat p) buf))
      else Inl OutOfBounds)"

definition sint32 :: "bytes \<Rightarrow> int" where
  "sint32 bs = sint (word_of_int (le_uint bs) :: 32 word)"

definition sint64 :: "bytes \<Rightarrow> int" where
  "sint64 bs = sint (word_of_int (le_uint bs) :: 64 word)"

definition read_int :: "bytes \<Rightarrow> int \<Rightarrow> fault + int" where
  "read_int buf p = and_then (bytes_at buf p 4) (\<lambda>bs. Inr (sint32 bs))"

definition strlen :: "bytes \<Rightarrow> int \<Rightarrow> fault + int" where
  "strlen buf p =
     (if 0 \<le> p \<and> p < int (length buf) \<and> 0 \<in> set (drop (nat p) buf)
      then Inr (int (length (cstr (drop (nat p) buf)))) else Inl OutOfBounds)"

definition rb_str_new :: "bytes \<Rightarrow> int \<Rightarrow> int \<Rightarrow> fault + bytes" where
  "rb_str_new buf p n =
     (if n < 0 then Inl (Raise ArgumentError) else bytes_at buf p (nat n))"

fun strcmp_eq :: "bytes \<Rightarrow> int \<Rightarrow> bytes \<Rightarrow> fault + bool" where
  \<comment> \<open>\<open>strcmp(buffer + p, literal) == 0\<close>: bytes are read up to the first difference\<close>
  "strcmp_eq buf p [] = and_then (byte_at buf p) (\<lambda>c. Inr (c = 0))"
| "strcmp_eq buf p (l # ls) =
     and_then (byte_at buf p) (\<lambda>c. if c = l then strcmp_eq buf (p + 1) ls else Inr False)"

definition element_assignment :: "(key \<times> val) list \<Rightarrow> bytes \<Rightarrow> val \<Rightarrow> (key \<times> val) list" where
  \<comment> \<open>\<open>hash[name] = value\<close> on an ordered hash: a key that is present keeps its place\<close>
  "element_assignment kvs name v =
     (if KString name \<in> fst ` set kvs
      then map (\<lambda>kv. if fst kv = KString name then (KString name, v) else kv) kvs
      else kvs @ [(KString name, v)])"

definition dbref_header :: "bytes \<Rightarrow> int \<Rightarrow> int \<Rightarrow> fault + (bytes \<times> byte \<times> int)" where
  \<comment> \<open>the DBRef branch of case 3 up to its call of \<open>get_value\<close>: the collection name, the
      tag of the id and the offset of the id's value\<close>
  "dbref_header buf base position =
     (let offset = int32 (position + 10) in
      and_then (read_int buf (base + offset)) (\<lambda>len.
      let collection_length = int32 (len - 1); offset = int32 (offset + 4) in
      and_then (rb_str_new buf (base + offset) collection_length) (\<lambda>ns.
      let offset = int32 (offset + int32 (collection_length + 1)) in
      and_then (byte_at buf (base + offset)) (\<lambda>id_type.
      let offset = int32 (offset + 5) in
      Inr (ns, id_type, offset)))))"

definition code_header :: "bytes \<Rightarrow> int \<Rightarrow> int \<Rightarrow> fault + (bytes \<times> int \<times> int)" where
  \<comment> \<open>case 15 up to its call of \<open>elements_to_hash\<close>: the code string, the position of the
      scope document and its declared size\<close>
  "code_header buf base position =
     (let position = int32 (position + 4) in
      and_then (read_int buf (base + position)) (\<lambda>len.
      let code_length = int32 (len - 1); position = int32 (position + 4) in
      and_then (rb_str_new buf (base + position) code_length) (\<lambda>code.
      let position = int32 (position + int32 (code_length + 1)) in
      and_then (read_int buf (base + position)) (\<lambda>scope_size.
      Inr (code, position, scope_size)))))"

definition get_scalar ::
  "host \<Rightarrow> bool \<Rightarrow> bytes \<Rightarrow> int \<Rightarrow> int \<Rightarrow> byte \<Rightarrow> fault + (val \<times> int)" where
  \<comment> \<open>the cases of \<open>get_value\<close>'s switch that do not recurse (all but 3, 4 and 15), and its
      default\<close>
  "get_scalar h compile_regex buf base position type =
     (if type = 255 then Inr (VMinKey, position)
      else if type = 1 then
        and_then (bytes_at buf (base + position) 8) (\<lambda>d.
        Inr (VFloat (word_of_int (le_uint d)), int32 (position + 8)))
      else if type = 2 \<or> type = 13 then
        and_then (read_int buf (base + position)) (\<lambda>len.
        let value_length = int32 (len - 1); position = int32 (position + 4) in
        and_then (rb_str_new buf (base + position) value_length) (\<lambda>s.
        Inr (VString s, int32 (position + int32 (value_length + 1)))))
      else if type = 5 then
        and_then (read_int buf (base + position)) (\<lambda>len.
        and_then (byte_at buf (base + int32 (position + 4))) (\<lambda>subtype.
        and_then
          (if subtype = 2 then rb_str_new buf (base + position + 9) (int32 (len - 4))
           else rb_str_new buf (base + position + 5) len) (\<lambda>data.
        Inr (VBinary data (uint subtype), int32 (position + int32 (len + 5))))))
      else if type = 6 then Inr (VNil, position)
      else if type = 7 then
        and_then (bytes_at buf (base + position) 12) (\<lambda>str.
        Inr (VObjectId str, int32 (position + 12)))
      else if type = 8 then
        and_then (byte_at buf (base + position)) (\<lambda>c.
        Inr (VBoolean (c \<noteq> 0), int32 (position + 1)))
      else if type = 9 then
        and_then (bytes_at buf (base + position) 8) (\<lambda>millis.
        Inr (VTime (sint64 millis), int32 (position + 8)))
      else if type = 10 then Inr (VNil, position)
      else if type = 11 then
        and_then (strlen buf (base + position)) (\<lambda>n.
        let pattern_length = int32 n in
        and_then (rb_str_new buf (base + position) pattern_length) (\<lambda>pattern.
        let position = int32 (position + int32 (pattern_length + 1)) in
        and_then (strlen buf (base + position)) (\<lambda>n.
        let flags_length = int32 n in
        and_then (rb_str_new buf (base + position) flags_length) (\<lambda>flags_str.
        let v = regex_new h pattern flags_str in
        and_then
          (if compile_regex then
             (case try_compile h v of Inl e \<Rightarrow> Inl (Raise e) | Inr v \<Rightarrow> Inr v)
           else Inr v) (\<lambda>v.
        Inr (v, int32 (position + int32 (flags_length + 1))))))))
      else if type = 12 then
        and_then (read_int buf (base + position)) (\<lambda>len.
        let collection_length = int32 (len - 1); position = int32 (position + 4) in
        and_then (rb_str_new buf (base + position) collection_length) (\<lambda>collection.
        let position = int32 (position + int32 (collection_length + 1)) in
        and_then (bytes_at buf (base + position) 12) (\<lambda>str.
        Inr (VDBRef (VString collection) (VObjectId str), int32 (position + 12)))))
      else if type = 14 then
        and_then (read_int buf (base + position)) (\<lambda>value_length.
        and_then (strlen buf (base + position + 4)) (\<lambda>n.
        and_then (rb_str_new buf (base + position + 4) n) (\<lambda>name.
        Inr (VSymbol name, int32 (position + int32 (value_length + 4))))))
      else if type = 16 then
        and_then (read_int buf (base + position)) (\<lambda>i.
        Inr (VInteger i, int32 (position + 4)))
      else if type = 17 then
        and_then (bytes_at buf (base + position) 4) (\<lambda>inc.
        and_then (bytes_at buf (base + position + 4) 4) (\<lambda>sec.
        Inr (VTimestamp (VInteger (le_uint sec)) (VInteger (le_uint inc)),
             int32 (position + 8))))
      else if type = 18 then
        and_then (bytes_at buf (base + position) 8) (\<lambda>ll.
        Inr (VInteger (sint64 ll), int32 (position + 8)))
      else if type = 127 then Inr (VMaxKey, position)
      else Inl (Raise TypeError))"

definition element_header :: "bytes \<Rightarrow> int \<Rightarrow> int \<Rightarrow> fault + (byte \<times> bytes \<times> int)" where
  \<comment> \<open>the head of an iteration of \<open>elements_to_hash\<close>: the tag, the name and the position
      of the value\<close>
  "element_header buf base position =
     and_then (byte_at buf (base + position)) (\<lambda>type.
     let position = int32 (position + 1) in
     and_then (strlen buf (base + position)) (\<lambda>n.
     let name_length = int32 n in
     and_then (rb_str_new buf (base + position) name_length) (\<lambda>name.
     let position = int32 (position + int32 (name_length + 1)) in
     Inr (type, name, position))))"

definition item_header :: "bytes \<Rightarrow> int \<Rightarrow> int \<Rightarrow> fault + (byte \<times> int)" where
  \<comment> \<open>the head of an iteration of the array loop: the tag, and the key is skipped\<close>
  "item_header buf base position =
     and_then (byte_at buf (base + position)) (\<lambda>type.
     let position = int32 (position + 1) in
     and_then (strlen buf (base + position)) (\<lambda>n.
     let key_size = int32 n;
         position = int32 (position + int32 (key_size + 1)) in
     Inr (type, position)))"

function get_value ::
    "nat \<Rightarrow> host \<Rightarrow> bool \<Rightarrow> bytes \<Rightarrow> int \<Rightarrow> int \<Rightarrow> byte \<Rightarrow> fault + (val \<times> int)"
  and elements_loop ::
    "nat \<Rightarrow> host \<Rightarrow> bool \<Rightarrow> bytes \<Rightarrow> int \<Rightarrow> int \<Rightarrow> int \<Rightarrow> (key \<times> val) list \<Rightarrow> fault + val"
  and array_loop ::
    "nat \<Rightarrow> host \<Rightarrow> bool \<Rightarrow> bytes \<Rightarrow> int \<Rightarrow> int \<Rightarrow> int \<Rightarrow> val list \<Rightarrow> fault + (val \<times> int)"
where
  "get_value 0 h compile_regex buf base position type = Inl Fuel"
| "get_value (Suc n) h compile_regex buf base position type =
     (if type = 3 then
        and_then (read_int buf (base + position)) (\<lambda>size.
        and_then (strcmp_eq buf (base + position + 5) (bytes_of ''$ref'')) (\<lambda>is_dbref.
        and_then
          (if is_dbref then
             and_then (dbref_header buf base position) (\<lambda>(ns, id_type, offset).
             and_then (get_value n h compile_regex buf base offset id_type) (\<lambda>(oid, offset).
             Inr (VDBRef (VString ns) oid)))
           else elements_loop n h compile_regex buf (base + position + 4) 0 (int32 (size - 5)) [])
          (\<lambda>v. Inr (v, int32 (position + size)))))
      else if type = 4 then
        and_then (read_int buf (base + position)) (\<lambda>size.
        let end_position = int32 (int32 (position + size) - 1);
            position = int32 (position + 4) in
        array_loop n h compile_regex buf base position end_position [])
      else if type = 15 then
        and_then (code_header buf base position) (\<lambda>(code, position, scope_size).
        and_then
          (elements_loop n h compile_regex buf (base + position + 4) 0 (int32 (scope_size - 5)) [])
          (\<lambda>scope.
        Inr (VCode code scope, int32 (position + scope_size))))
      else get_scalar h compile_regex buf base position type)"
| "elements_loop 0 h compile_regex buf base position max_position hash = Inl Fuel"
| "elements_loop (Suc n) h compile_regex buf base position max_position hash =
     (if position < max_position then
        and_then (element_header buf base position) (\<lambda>(type, name, position).
        and_then (get_value n h compile_regex buf base position type) (\<lambda>(v, position).
        elements_loop n h compile_regex buf base position max_position
          (element_assignment hash name v)))
      else Inr (VHash hash))"
| "array_loop 0 h compile_regex buf base position end_position a = Inl Fuel"
| "array_loop (Suc n) h compile_regex buf base position end_position a =
     (if position < end_position then
        and_then (item_header buf base position) (\<lambda>(type, position).
        and_then (get_value n h compile_regex buf base position type) (\<lambda>(to_append, position).
        array_loop n h compile_regex buf base position end_position (a @ [to_append])))
      else Inr (VArray a, int32 (position + 1)))"
  by pat_completeness auto

termination get_value
  by (relation "measure (\<lambda>x. case x of
        Inl (n, r) \<Rightarrow> n | Inr (Inl (n, r)) \<Rightarrow> n | Inr (Inr (n, r)) \<Rightarrow> n)") auto

declare get_value.simps(2) [simp del] elements_loop.simps(2) [simp del]
  array_loop.simps(2) [simp del]

definition elements_to_hash ::
  "nat \<Rightarrow> host \<Rightarrow> bool \<Rightarrow> bytes \<Rightarrow> int \<Rightarrow> int \<Rightarrow> fault + val" where
  "elements_to_hash n h compile_regex buf base max_position =
     elements_loop n h compile_regex buf base 0 max_position []"

definition compile_regex_option :: "val \<Rightarrow> fault + bool" where
  \<comment> \<open>\<open>compile_regex\<close> is 1 unless \<open>opts.has_key?(:compile_regex)\<close> is true and the entry is
      \<open>false\<close>; an \<open>opts\<close> that is not a hash does not respond to \<open>has_key?\<close>\<close>
  "compile_regex_option opts =
     (let k = KSymbol (bytes_of ''compile_regex'') in
      case has_key opts k of
        None \<Rightarrow> Inl (Raise NoMethodError)
      | Some present \<Rightarrow> Inr (\<not> (present \<and> rb_hash_aref opts k = VBoolean False)))"

definition method_deserialize :: "nat \<Rightarrow> host \<Rightarrow> bytes \<Rightarrow> val \<Rightarrow> fault + val" where
  \<comment> \<open>\<open>RSTRING_LENINT\<close> is the cast \<open>(int)(RSTRING_LEN(v))\<close>; "we just swallow the size and
      end byte here"\<close>
  "method_deserialize n h bson opts =
     (let remaining = int32 (int (length bson)) in
      and_then (compile_regex_option opts) (\<lambda>compile_regex.
      let base = 4; remaining = int32 (remaining - 5) in
      elements_to_hash n h compile_regex bson base remaining))"

section \<open>ObjectId generation\<close>

text \<open>
  What \<open>objectid_generate\<close> reads from the process: the size of \<open>unsigned int\<close> in bytes,
  the digest of the host name taken at load time, \<open>getpid()\<close> and \<open>time(NULL)\<close>. The state
  is the counter \<open>object_id_inc\<close>, an \<open>unsigned int\<close>. \<open>htonl\<close> and \<open>htons\<close> followed by
  \<open>MEMCPY\<close> lay a value out most significant byte first.
\<close>

record process =
  sizeof_unsigned_int :: nat
  hostname_digest :: bytes
  pid :: int
  now :: int

definition be_bytes :: "nat \<Rightarrow> int \<Rightarrow> bytes" where
  "be_bytes n i = rev (le_bytes n i)"

definition increment :: "nat \<Rightarrow> nat \<Rightarrow> nat" where
  \<comment> \<open>\<open>object_id_inc++\<close> where \<open>unsigned int\<close> has 4 bytes, and
      \<open>object_id_inc = (object_id_inc + 1) % 0xFFFFFF\<close> elsewhere, in \<open>unsigned int\<close>\<close>
  "increment sz object_id_inc =
     (if sz = 4 then (object_id_inc + 1) mod 2 ^ 32
      else (object_id_inc + 1) mod 2 ^ (8 * sz) mod 0xFFFFFF mod 2 ^ (8 * sz))"

definition objectid_generate :: "process \<Rightarrow> int option \<Rightarrow> nat \<Rightarrow> bytes \<times> nat" where
  \<comment> \<open>the argument is \<open>None\<close> for no argument or \<open>nil\<close>, and otherwise the time's \<open>to_i\<close>;
      the result is the twelve bytes and the new counter\<close>
  "objectid_generate p arg object_id_inc =
     (let t = (case arg of None \<Rightarrow> now p | Some t \<Rightarrow> t);
          object_id_inc = increment (sizeof_unsigned_int p) object_id_inc
      in (be_bytes 4 t @ take 3 (hostname_digest p) @ be_bytes 2 (pid p)
            @ be_bytes 3 (int object_id_inc),
          object_id_inc))"

section \<open>A host for the examples\<close>

text \<open>
  Oniguruma's option bits (Ruby 1.9 and later) and the constants of \<open>BSON::Regex\<close>. The
  constructor and \<open>try_compile\<close> stand for host code; no statement below depends on what
  they return. \<open>NUM2UINT\<close> is given for integers, which it converts when they lie between
  \<open>INT_MIN\<close> and \<open>UINT_MAX\<close> and for which it raises \<open>RangeError\<close> otherwise, and for
  \<open>nil\<close> and the other values that have no conversion to an integer, for which it raises
  \<open>TypeError\<close>; the examples convert no floats.
\<close>

definition ruby :: host where
  "ruby = \<lparr>IGNORECASE = 1, MULTILINE = 4, EXTENDED = 2,
     BSONRegex_IGNORECASE = 1, BSONRegex_EXTENDED = 32, BSONRegex_MULTILINE = 4,
     BSONRegex_DOTALL = 8, BSONRegex_LOCALE_DEPENDENT = 2, BSONRegex_UNICODE = 16,
     regex_new = (\<lambda>pattern flags_str. VBSONRegex pattern 0 None),
     try_compile = Inr,
     NUM2UINT = (\<lambda>v. case v of
        VInteger n \<Rightarrow> if - (2 ^ 31) \<le> n \<and> n < 2 ^ 32 then Inr (word_of_int n) else Inl RangeError
      | _ \<Rightarrow> Inl TypeError)\<rparr>"

section \<open>Predicates of the statements\<close>

definition tag_in_table :: "byte \<Rightarrow> bool" where
  \<comment> \<open>the tags of the data model: 0x01 to 0x05, 0x07 to 0x12, 0x7F and 0xFF\<close>
  "tag_in_table t =
     (unat t \<in> {1, 2, 3, 4, 5, 7, 8, 9, 10, 11, 12, 13, 14, 15, 16, 17, 18, 127, 255})"

definition key_accepted :: "bool \<Rightarrow> bytes \<Rightarrow> bool" where
  \<comment> \<open>the name is written as it is: it is UTF-8 without NUL and passes the key check\<close>
  "key_accepted check_keys k =
     (validate_utf8_encoding k False = VALID
      \<and> (check_keys \<longrightarrow> \<not> (k \<noteq> [] \<and> hd k = 0x24) \<and> 0x2E \<notin> set k))"

definition freed_before_raise :: "rb_error \<Rightarrow> bool" where
  \<comment> \<open>the errors of the encoder's own checks\<close>
  "freed_before_raise e =
     (e \<in> {TypeError, RangeError, InvalidKeyName, InvalidStringEncoding, InvalidDocument})"

definition raised_unfreed :: "host \<Rightarrow> rb_error \<Rightarrow> bool" where
  \<comment> \<open>the failures of a buffer operation, the \<open>NoMethodError\<close> of \<open>has_key?\<close>, and what the
      host's \<open>NUM2UINT\<close> raises\<close>
  "raised_unfreed h e =
     (e \<in> {NoMemError, RuntimeError, NoMethodError} \<or> (\<exists>v. NUM2UINT h v = Inl e))"

definition flag_ok :: "host \<Rightarrow> 'a raises \<Rightarrow> bool" where
  "flag_ok h r =
     (case r of
        Inl (e, f) \<Rightarrow> if f then freed_before_raise e else raised_unfreed h e
      | Inr x \<Rightarrow> True)"

definition capped :: "int \<Rightarrow> bson_buffer raises \<Rightarrow> bson_buffer raises \<Rightarrow> bool" where
  \<comment> \<open>how a run with the maximal size \<open>m\<close> relates to a run with another maximal size\<close>
  "capped m r r' =
     (case r of
        Inr x \<Rightarrow> r' = Inr (x\<lparr>max_size := m\<rparr>) \<or> r' = Inl (InvalidDocument, True)
      | Inl e \<Rightarrow> True)"

definition key_checked :: "'a raises \<Rightarrow> 'a raises \<Rightarrow> bool" where
  \<comment> \<open>how a run with \<open>check_keys\<close> relates to the run without it\<close>
  "key_checked r r' =
     (case r of Inr x \<Rightarrow> r' = Inr x \<or> r' = Inl (InvalidKeyName, True) | Inl e \<Rightarrow> True)"

definition reads_as_id :: "key \<Rightarrow> bool" where
  \<comment> \<open>\<open>strcmp("_id", RSTRING_PTR(key)) == 0\<close>\<close>
  "reads_as_id key =
     (case key_name key of None \<Rightarrow> False | Some k \<Rightarrow> cstr k = bytes_of ''_id'')"

definition key_rejected :: "key \<Rightarrow> bool" where
  \<comment> \<open>the key is a string or a symbol, and its name begins with \<open>$\<close> or contains \<open>.\<close>\<close>
  "key_rejected key =
     (case key_name key of
        None \<Rightarrow> False
      | Some k \<Rightarrow> (k \<noteq> [] \<and> hd k = 0x24) \<or> 0x2E \<in> set k)"

fun has_rejected_key :: "val \<Rightarrow> bool" where
  \<comment> \<open>such a key at top level or inside nested hashes and arrays\<close>
  "has_rejected_key (VHash kvs) =
     (\<exists>kv \<in> set kvs. key_rejected (fst kv) \<or> has_rejected_key (snd kv))"
| "has_rejected_key (VArray xs) = (\<exists>x \<in> set xs. has_rejected_key x)"
| "has_rejected_key v = False"

definition written_entries :: "bool \<Rightarrow> (key \<times> val) list \<Rightarrow> (key \<times> val) list" where
  \<comment> \<open>the entries of the top-level hash that \<open>write_doc\<close> hands to \<open>write_element\<close> and
      that are not skipped there: with \<open>move_id\<close> the entry of \<open>"_id"\<close>, or else of \<open>:_id\<close>,
      and then the entries whose key does not read as \<open>_id\<close>\<close>
  "written_entries move_id kvs =
     (if move_id then
        (if id_str \<in> fst ` set kvs then [(id_str, rb_hash_aref (VHash kvs) id_str)]
         else if id_sym \<in> fst ` set kvs then [(id_sym, rb_hash_aref (VHash kvs) id_sym)]
         else [])
        @ filter (\<lambda>kv. \<not> reads_as_id (fst kv)) kvs
      else kvs)"

definition rejected_key_written :: "bool \<Rightarrow> val \<Rightarrow> bool" where
  "rejected_key_written move_id d =
     (case d of
        VHash kvs \<Rightarrow>
          (\<exists>kv \<in> set (written_entries move_id kvs).
             key_rejected (fst kv) \<or> has_rejected_key (snd kv))
      | _ \<Rightarrow> False)"

fun both_ids :: "val \<Rightarrow> bool" where
  \<comment> \<open>some hash of the document, at top level or inside nested hashes and arrays, has both
      the key \<open>"_id"\<close> and the key \<open>:_id\<close>\<close>
  "both_ids (VHash kvs) =
     ((id_str \<in> fst ` set kvs \<and> id_sym \<in> fst ` set kvs) \<or> (\<exists>kv \<in> set kvs. both_ids (snd kv)))"
| "both_ids (VArray xs) = (\<exists>x \<in> set xs. both_ids x)"
| "both_ids v = False"

definition fails :: "'a raises \<Rightarrow> bool" where
  "fails r = (case r of Inl e \<Rightarrow> True | Inr x \<Rightarrow> False)"

section \<open>The encoding as a function of the value\<close>

text \<open>
  What the encoder appends for the values of the subset that survives a round trip: the
  tag, and the bytes after the element's name. These functions are not taken from the
  source; the encoder is shown to compute them.
\<close>

definition name_of :: "key \<Rightarrow> bytes" where
  "name_of key = (case key_name key of Some k \<Rightarrow> k | None \<Rightarrow> [])"

definition uint_of :: "val \<Rightarrow> int" where
  "uint_of v = (case v of VInteger n \<Rightarrow> n | _ \<Rightarrow> 0)"

fun tag :: "val \<Rightarrow> byte" where
  "tag (VInteger n) = (if n > 2147483647 \<or> n < - 2147483648 then 0x12 else 0x10)"
| "tag (VBoolean t) = 0x08"
| "tag (VFloat d) = 0x01"
| "tag VNil = 0x0A"
| "tag (VHash kvs) = 0x03"
| "tag (VArray xs) = 0x04"
| "tag (VString s) = 0x02"
| "tag (VBinary string_data subtype) = 0x05"
| "tag (VObjectId data) = 0x07"
| "tag VMaxKey = 0x7F"
| "tag VMinKey = 0xFF"
| "tag (VTimestamp seconds incr) = 0x11"
| "tag (VTime t) = 0x09"
| "tag v = 0"

definition document :: "bytes \<Rightarrow> bytes" where
  "document els = le_bytes 4 (int (length els) + 5) @ els @ [0]"

fun payload :: "val \<Rightarrow> bytes"
  and elements :: "(key \<times> val) list \<Rightarrow> bytes"
  and items :: "nat \<Rightarrow> val list \<Rightarrow> bytes"
where
  "payload (VInteger n) =
     (if n > 2147483647 \<or> n < - 2147483648 then le_bytes 8 n else le_bytes 4 n)"
| "payload (VBoolean t) = [if t then 1 else 0]"
| "payload (VFloat d) = le_bytes 8 (uint d)"
| "payload (VHash kvs) = document (elements kvs)"
| "payload (VArray xs) = document (items 0 xs)"
| "payload (VString s) = le_bytes 4 (int (length s) + 1) @ s @ [0]"
| "payload (VBinary string_data subtype) =
     (if (word_of_int subtype :: byte) = 2
      then le_bytes 4 (int (length string_data) + 4) @ [2]
           @ le_bytes 4 (int (length string_data)) @ string_data
      else le_bytes 4 (int (length string_data)) @ [word_of_int subtype] @ string_data)"
| "payload (VObjectId data) = oid_bytes data"
| "payload (VTimestamp seconds incr) = le_bytes 4 (uint_of incr) @ le_bytes 4 (uint_of seconds)"
| "payload (VTime t) = le_bytes 8 t"
| "payload v = []"
| "elements [] = []"
| "elements ((k, v) # rest) = tag v # name_of k @ [0] @ payload v @ elements rest"
| "items i [] = []"
| "items i (x # xs) = tag x # INT2STRING i @ [0] @ payload x @ items (Suc i) xs"

section \<open>The documents that survive a round trip\<close>

definition starts_with_ref :: "(key \<times> val) list \<Rightarrow> bool" where
  "starts_with_ref kvs =
     (case kvs of [] \<Rightarrow> False | kv # rest \<Rightarrow> fst kv = KString (bytes_of ''$ref''))"

definition plain_key :: "key \<Rightarrow> bool" where
  \<comment> \<open>a string without NUL: the decoder returns every name as a string, read up to the
      first NUL\<close>
  "plain_key k = (case k of KString s \<Rightarrow> 0 \<notin> set s | _ \<Rightarrow> False)"

definition uint_kept :: "host \<Rightarrow> val \<Rightarrow> bool" where
  \<comment> \<open>an Integer that \<open>NUM2UINT\<close> converts to itself\<close>
  "uint_kept h v =
     (case NUM2UINT h v of Inl e \<Rightarrow> False | Inr w \<Rightarrow> v = VInteger (uint w))"

fun lossless :: "host \<Rightarrow> val \<Rightarrow> bool"
  and lossless_entries :: "host \<Rightarrow> (key \<times> val) list \<Rightarrow> bool"
  and lossless_items :: "host \<Rightarrow> val list \<Rightarrow> bool"
where
  "lossless h (VInteger n) = (- (2 ^ 63) \<le> n \<and> n < 2 ^ 63)"
| "lossless h (VBoolean t) = True"
| "lossless h (VFloat d) = True"
| "lossless h VNil = True"
| "lossless h (VHash kvs) =
     (lossless_entries h kvs \<and> distinct (map fst kvs) \<and> \<not> starts_with_ref kvs)"
| "lossless h (VArray xs) = lossless_items h xs"
| "lossless h (VString s) = True"
| "lossless h (VBinary string_data subtype) = (0 \<le> subtype \<and> subtype < 256)"
| "lossless h (VObjectId data) = (length data = 12)"
| "lossless h VMaxKey = True"
| "lossless h VMinKey = True"
| "lossless h (VTimestamp seconds incr) = (uint_kept h seconds \<and> uint_kept h incr)"
| "lossless h (VTime t) = (- (2 ^ 63) \<le> t \<and> t < 2 ^ 63)"
| "lossless h v = False"
| "lossless_entries h [] = True"
| "lossless_entries h ((k, v) # rest) = (plain_key k \<and> lossless h v \<and> lossless_entries h rest)"
| "lossless_items h [] = True"
| "lossless_items h (x # xs) = (lossless h x \<and> lossless_items h xs)"

definition lossless_document :: "host \<Rightarrow> val \<Rightarrow> bool" where
  "lossless_document h d =
     (case d of VHash kvs \<Rightarrow> lossless_entries h kvs \<and> distinct (map fst kvs) | _ \<Rightarrow> False)"

fun fuel :: "val \<Rightarrow> nat"
  and fuel_entries :: "(key \<times> val) list \<Rightarrow> nat"
  and fuel_items :: "val list \<Rightarrow> nat"
where
  "fuel (VHash kvs) = Suc (fuel_entries kvs)"
| "fuel (VArray xs) = Suc (fuel_items xs)"
| "fuel v = Suc 0"
| "fuel_entries [] = Suc 0"
| "fuel_entries ((k, v) # rest) = Suc (max (fuel v) (fuel_entries rest))"
| "fuel_items [] = Suc 0"
| "fuel_items (x # xs) = Suc (max (fuel x) (fuel_items xs))"

definition at :: "bytes \<Rightarrow> int \<Rightarrow> bytes \<Rightarrow> bool" where
  \<comment> \<open>the bytes \<open>s\<close> lie in \<open>buf\<close> from index \<open>p\<close> on\<close>
  "at buf p s =
     (0 \<le> p \<and> nat p + length s \<le> length buf \<and> take (length s) (drop (nat p) buf) = s)"

definition not_ref :: "bytes \<Rightarrow> bool" where
  \<comment> \<open>the C string at the head of these bytes ends, and it is not \<open>$ref\<close>\<close>
  "not_ref post = (0 \<in> set post \<and> cstr post \<noteq> bytes_of ''$ref'')"

section \<open>Unfolding the buffer and the encoder\<close>

lemmas buffer_simps = bson_buffer_new_def bson_buffer_set_max_size_def
  bson_buffer_get_max_size_def bson_buffer_get_position_def bson_buffer_write_def
  bson_buffer_save_space_def patch_def bson_buffer_write_at_position_def SAFE_WRITE_def
  SAFE_WRITE_AT_POS_def

lemmas encoder_simps = write_utf8_def write_name_and_type_def write_element.simps
  write_doc.simps method_serialize_def key_name_def finish_length_def id_str_def id_sym_def
  has_key_def rb_hash_aref_def comma_expression_is_zero_def bytes_of_def cstr_def le_bytes_def
  fixnum_def string_element_def binary_element_def

section \<open>Reading from a byte string\<close>

lemma byte_at_append [simp]:
  "p = int (length pre) \<Longrightarrow> byte_at (pre @ x # post) p = Inr x"
  by (simp add: byte_at_def)

lemma cstr_append [simp]: "0 \<notin> set s \<Longrightarrow> cstr (s @ 0 # post) = s"
  by (induction s) (simp_all add: cstr_def)

lemma strlen_append [simp]:
  "p = int (length pre) \<Longrightarrow> 0 \<notin> set s \<Longrightarrow>
   strlen (pre @ s @ 0 # post) p = Inr (int (length s))"
  by (simp add: strlen_def)

lemma bytes_at_append [simp]:
  "p = int (length pre) \<Longrightarrow> n = length s \<Longrightarrow> bytes_at (pre @ s @ post) p n = Inr s"
  by (simp add: bytes_at_def)

lemma rb_str_new_append [simp]:
  "p = int (length pre) \<Longrightarrow> n = int (length s) \<Longrightarrow>
   rb_str_new (pre @ s @ post) p n = Inr s"
  by (simp add: rb_str_new_def)

lemma buffer_update_eq [simp]: "(b\<lparr>buffer := x\<rparr> = b\<lparr>buffer := y\<rparr>) = (x = y)"
  by (auto dest: arg_cong [where f = buffer])

lemma write_name_and_type_ok:
  "validate_utf8_encoding k False = VALID \<Longrightarrow> length (buffer b) + length k + 2 \<le> avail b \<Longrightarrow>
   write_name_and_type b k t = Inr (b\<lparr>buffer := buffer b @ [t] @ k @ [0]\<rparr>)"
  by (simp add: write_name_and_type_def write_utf8_def buffer_simps)

section \<open>Errors and the buffer\<close>

lemma and_thenE:
  assumes "and_then x f = Inr y"
  obtains z where "x = Inr z" and "f z = Inr y"
  using assms by (cases x) auto

lemma flag_ok_Inr [simp]: "flag_ok h (Inr x)"
  by (simp add: flag_ok_def)

lemma flag_ok_Inl [simp]:
  "flag_ok h (Inl (e, f)) = (if f then freed_before_raise e else raised_unfreed h e)"
  by (simp add: flag_ok_def)

lemma flag_ok_host_call [simp]: "flag_ok h (host_call (NUM2UINT h v))"
  by (auto simp: host_call_def raised_unfreed_def split: sum.splits)

lemma flag_ok_and_then [intro!]:
  "flag_ok h x \<Longrightarrow> (\<And>z. flag_ok h (f z)) \<Longrightarrow> flag_ok h (and_then x f)"
  by (cases x) (auto simp: flag_ok_def)

lemma flag_ok_SAFE_WRITE [simp]: "flag_ok h (SAFE_WRITE b d)"
  by (simp add: SAFE_WRITE_def freed_before_raise_def raised_unfreed_def split: option.splits)

lemma flag_ok_SAFE_WRITE_AT_POS [simp]: "flag_ok h (SAFE_WRITE_AT_POS b p d)"
  by (simp add: SAFE_WRITE_AT_POS_def freed_before_raise_def raised_unfreed_def split: option.splits)

lemma flag_ok_write_utf8 [simp]: "flag_ok h (write_utf8 b s a)"
  by (simp add: write_utf8_def freed_before_raise_def raised_unfreed_def split: result_t.splits)

lemma flag_ok_write_name_and_type [simp]: "flag_ok h (write_name_and_type b k t)"
  by (auto simp: write_name_and_type_def)

lemma flag_ok_write_if [simp]: "flag_ok h (write_if c d b)"
  by (simp add: write_if_def)

lemma flag_ok_serialize_regex [simp]: "flag_ok h (serialize_regex h b k p f e n)"
  by (auto simp: serialize_regex_def split: option.splits)

lemma flag_ok_string_element [simp]: "flag_ok h (string_element b k s)"
  by (auto simp: string_element_def)

lemma flag_ok_binary_element [simp]: "flag_ok h (binary_element b k s t)"
  by (auto simp: binary_element_def Let_def)

lemma flag_ok_finish_length [simp]: "flag_ok h (finish_length b s l)"
  by (auto simp: finish_length_def)

lemma flag_ok_encoder:
  "flag_ok h (write_element h key v b ck allow)"
  "flag_ok h (write_value h k v b ck)"
  "flag_ok h (write_doc h b d ck mv)"
  "flag_ok h (rb_hash_foreach h kvs allow b ck)"
  "flag_ok h (write_items h i xs b ck)"
proof (induction h key v b ck allow and h k v b ck and h b d ck mv and h kvs allow b ck
    and h i xs b ck
    rule: write_element_write_value_write_doc_rb_hash_foreach_write_items.induct)
  case (1 h key v b check_keys allow_id)
  then show ?case
    by (subst write_element.simps) (auto simp: freed_before_raise_def raised_unfreed_def split: option.splits)
next
  case (25 h b hash check_keys move_id)
  have e1: "flag_ok h (write_element h id_str (rb_hash_aref hash id_str) b' check_keys True)"
    if "bson_buffer_save_space b 4 = Some (loc, b')" "move_id" "has_key hash id_str = Some True"
    for loc b'
    by (rule 25(1)) (use that in auto)
  have e2: "flag_ok h (write_element h id_sym (rb_hash_aref hash id_sym) b' check_keys True)"
    if "bson_buffer_save_space b 4 = Some (loc, b')" "move_id" "has_key hash id_str = Some False"
     "has_key hash id_sym = Some True"
    for loc b'
    by (rule 25(2)) (use that in auto)
  have e3: "flag_ok h (rb_hash_foreach h kvs a b' check_keys)"
    if "bson_buffer_save_space b 4 = Some (loc, b'')" "hash = VHash kvs" "a = (\<not> move_id)"
    for loc b' b'' kvs a
    unfolding that(3)
    by (rule 25(3)) (use that in \<open>auto simp: comma_expression_is_zero_def\<close>)
  show ?case
    apply (subst write_doc.simps)
    apply (simp add: Let_def comma_expression_is_zero_def split: option.splits prod.splits)
    apply (intro allI impI conjI flag_ok_and_then)
    apply (auto simp: freed_before_raise_def raised_unfreed_def bson_buffer_get_max_size_def
        intro: e1 e2 e3 split: option.splits val.splits bool.splits)
    done
qed (auto simp: freed_before_raise_def raised_unfreed_def Let_def split: option.splits)

lemma capped_Inl [simp]: "capped m (Inl e) r'"
  by (simp add: capped_def)

lemma capped_InvalidDocument [simp]: "capped m r (Inl (InvalidDocument, True))"
  by (simp add: capped_def split: sum.splits)

lemma capped_Inr [simp]: "capped m (Inr x) (Inr (x\<lparr>max_size := m\<rparr>))"
  by (simp add: capped_def)

lemma capped_and_then [intro!]:
  "capped m x x' \<Longrightarrow> (\<And>z. capped m (f z) (f' (z\<lparr>max_size := m\<rparr>))) \<Longrightarrow>
   capped m (and_then x f) (and_then x' f')"
proof (cases x)
  case (Inr b)
  assume x: "capped m x x'" and f: "\<And>z. capped m (f z) (f' (z\<lparr>max_size := m\<rparr>))"
  from x Inr consider "x' = Inr (b\<lparr>max_size := m\<rparr>)" | "x' = Inl (InvalidDocument, True)"
    by (auto simp: capped_def)
  then show ?thesis
  proof cases
    case 1
    with Inr f [of b] show ?thesis by simp
  next
    case 2
    with Inr show ?thesis by (simp add: capped_def split: sum.splits)
  qed
qed simp

lemma capped_SAFE_WRITE [simp]:
  "capped m (SAFE_WRITE b d) (SAFE_WRITE (b\<lparr>max_size := m\<rparr>) d)"
  by (simp add: SAFE_WRITE_def bson_buffer_write_def capped_def)

lemma capped_SAFE_WRITE_AT_POS [simp]:
  "capped m (SAFE_WRITE_AT_POS b p d) (SAFE_WRITE_AT_POS (b\<lparr>max_size := m\<rparr>) p d)"
  by (simp add: SAFE_WRITE_AT_POS_def bson_buffer_write_at_position_def capped_def)

lemma capped_write_utf8 [simp]:
  "capped m (write_utf8 b s a) (write_utf8 (b\<lparr>max_size := m\<rparr>) s a)"
  by (simp add: write_utf8_def split: result_t.splits)

lemma capped_write_name_and_type [simp]:
  "capped m (write_name_and_type b k t) (write_name_and_type (b\<lparr>max_size := m\<rparr>) k t)"
  by (auto simp: write_name_and_type_def)

lemma capped_write_if [simp]:
  "capped m (write_if c d b) (write_if c d (b\<lparr>max_size := m\<rparr>))"
  by (simp add: write_if_def)

lemma capped_serialize_regex [simp]:
  "capped m (serialize_regex h b k p f e n) (serialize_regex h (b\<lparr>max_size := m\<rparr>) k p f e n)"
  by (auto simp: serialize_regex_def split: option.splits)

lemma capped_string_element [simp]:
  "capped m (string_element b k s) (string_element (b\<lparr>max_size := m\<rparr>) k s)"
  by (auto simp: string_element_def)

lemma capped_binary_element [simp]:
  "capped m (binary_element b k s t) (binary_element (b\<lparr>max_size := m\<rparr>) k s t)"
  by (auto simp: binary_element_def Let_def)

lemma capped_host_call [intro!]:
  "(\<And>w. capped m (f w) (f' w)) \<Longrightarrow>
   capped m (and_then (host_call r) f) (and_then (host_call r) f')"
  by (cases r) (simp_all add: host_call_def)

lemma capped_finish_length [simp]:
  "capped m (finish_length b s l) (finish_length (b\<lparr>max_size := m\<rparr>) s l)"
  by (auto simp: finish_length_def bson_buffer_get_position_def)

lemma save_space_max_size [simp]:
  "bson_buffer_save_space (b\<lparr>max_size := m\<rparr>) n
   = map_option (\<lambda>(p, b). (p, b\<lparr>max_size := m\<rparr>)) (bson_buffer_save_space b n)"
  by (simp add: bson_buffer_save_space_def)

lemma get_position_max_size [simp]:
  "bson_buffer_get_position (b\<lparr>max_size := m\<rparr>) = bson_buffer_get_position b"
  by (simp add: bson_buffer_get_position_def)

lemma capped_encoder:
  "capped m (write_element h key v b ck allow) (write_element h key v (b\<lparr>max_size := m\<rparr>) ck allow)"
  "capped m (write_value h k v b ck) (write_value h k v (b\<lparr>max_size := m\<rparr>) ck)"
  "capped m (write_doc h b d ck mv) (write_doc h (b\<lparr>max_size := m\<rparr>) d ck mv)"
  "capped m (rb_hash_foreach h kvs allow b ck) (rb_hash_foreach h kvs allow (b\<lparr>max_size := m\<rparr>) ck)"
  "capped m (write_items h i xs b ck) (write_items h i xs (b\<lparr>max_size := m\<rparr>) ck)"
proof (induction h key v b ck allow and h k v b ck and h b d ck mv and h kvs allow b ck
    and h i xs b ck
    rule: write_element_write_value_write_doc_rb_hash_foreach_write_items.induct)
  case (1 h key v b check_keys allow_id)
  then show ?case
    by (auto simp: write_element.simps split: option.splits)
next
  case (25 h b hash check_keys move_id)
  have e1: "capped m (write_element h id_str (rb_hash_aref hash id_str) b' check_keys True)
      (write_element h id_str (rb_hash_aref hash id_str) (b'\<lparr>max_size := m\<rparr>) check_keys True)"
    if "bson_buffer_save_space b 4 = Some (loc, b')" "move_id" "has_key hash id_str = Some True"
    for loc b'
    by (rule 25(1)) (use that in auto)
  have e2: "capped m (write_element h id_sym (rb_hash_aref hash id_sym) b' check_keys True)
      (write_element h id_sym (rb_hash_aref hash id_sym) (b'\<lparr>max_size := m\<rparr>) check_keys True)"
    if "bson_buffer_save_space b 4 = Some (loc, b')" "move_id" "has_key hash id_str = Some False"
     "has_key hash id_sym = Some True"
    for loc b'
    by (rule 25(2)) (use that in auto)
  have e3: "capped m (rb_hash_foreach h kvs a b' check_keys)
      (rb_hash_foreach h kvs a (b'\<lparr>max_size := m\<rparr>) check_keys)"
    if "bson_buffer_save_space b 4 = Some (loc, b'')" "hash = VHash kvs" "a = (\<not> move_id)"
    for loc b' b'' kvs a
    unfolding that(3)
    by (rule 25(3)) (use that in \<open>auto simp: comma_expression_is_zero_def\<close>)
  have fin: "capped m
     (if int (bson_buffer_get_position z) - int s > bson_buffer_get_max_size z
      then Inl (InvalidDocument, True)
      else SAFE_WRITE_AT_POS z l (le_bytes 4 (int (bson_buffer_get_position z) - int s)))
     (if int (bson_buffer_get_position z) - int s > bson_buffer_get_max_size (z\<lparr>max_size := m\<rparr>)
      then Inl (InvalidDocument, True)
      else SAFE_WRITE_AT_POS (z\<lparr>max_size := m\<rparr>) l (le_bytes 4 (int (bson_buffer_get_position z) - int s)))"
    for z s l
    using capped_SAFE_WRITE_AT_POS [of m z l]
    by (auto simp: capped_def split: sum.splits)
  show ?case
    apply (subst write_doc.simps)
    apply (subst write_doc.simps)
    apply (simp add: Let_def comma_expression_is_zero_def split: option.splits prod.splits)
    apply (intro allI impI conjI capped_and_then)
    apply (auto simp: fin intro: e1 e2 e3 split: option.splits val.splits bool.splits)
    done
qed (auto simp: Let_def split: option.splits)


lemma write_doc_within_max_size:
  assumes "write_doc h b d ck mv = Inr r"
  shows "int (length (buffer r)) - int (length (buffer b)) \<le> max_size r"
  using assms
  by (auto simp: write_doc.simps [of h b d ck mv] Let_def buffer_simps
      split: option.splits if_splits sum.splits elim!: and_thenE)

section \<open>The two \<open>_id\<close> keys\<close>

text \<open>
  C3. A document with both the string key \<open>"_id"\<close> and the symbol \<open>:_id\<close> should be written
  with one element \<open>"_id"\<close> that holds the symbol's value. The guard of the block that
  would do so is never true, so without \<open>move_id\<close> both entries are written, each under the
  name \<open>"_id"\<close>; with \<open>move_id\<close> one element is written, and it holds the value of the
  string key.
\<close>

theorem id_string_and_symbol_both_written:
  "method_serialize h (Some 64) (VHash [(id_str, VInteger 1), (id_sym, VInteger 2)])
     check_keys False 4194304
   = Inr ([23, 0, 0, 0] @ [0x10] @ bytes_of ''_id'' @ [0] @ [1, 0, 0, 0]
          @ [0x10] @ bytes_of ''_id'' @ [0] @ [2, 0, 0, 0] @ [0])
   \<and> method_serialize h (Some 64) (VHash [(id_str, VInteger 1), (id_sym, VInteger 2)])
     check_keys True 4194304
   = Inr ([14, 0, 0, 0] @ [0x10] @ bytes_of ''_id'' @ [0] @ [1, 0, 0, 0] @ [0])"
  by (simp add: buffer_simps encoder_simps upt_rec)

section \<open>Regex flags\<close>

text \<open>
  C4. The flag bytes of a regex element should be sorted and without duplicates, and a
  native regex carries \<open>m\<close>. The native branch writes \<open>m\<close> first and \<open>i\<close> after it: a native
  regex with the ignore-case option gets the flags \<open>mi\<close>, which are not sorted.
\<close>

theorem native_regex_flags_unsorted:
  "method_serialize ruby (Some 64)
     (VHash [(KString (bytes_of ''r''), VRegexp (bytes_of ''a'') (IGNORECASE ruby) None)])
     check_keys move_id 4194304
   = Inr ([13, 0, 0, 0] @ [0x0B] @ bytes_of ''r'' @ [0] @ bytes_of ''a'' @ [0]
          @ bytes_of ''mi'' @ [0] @ [0])"
  by (cases move_id)
    (simp_all add: buffer_simps encoder_simps upt_rec serialize_regex_def ruby_def flag_set_def
      write_if_def)

section \<open>The ObjectId counter\<close>

text \<open>
  C9. Two ObjectIds generated one after the other should agree on bytes 4 to 8 and have
  counters that differ by one modulo \<open>2^24\<close>, whatever the host's word size. Where
  \<open>unsigned int\<close> does not have 4 bytes the counter is reduced modulo \<open>0xFFFFFF\<close>: after
  the counter bytes \<open>FF FF FE\<close> come \<open>00 00 00\<close>, and \<open>FF FF FF\<close> never appears.
\<close>

theorem counter_wraps_at_0xFFFFFF_on_other_word_sizes:
  "objectid_generate \<lparr>sizeof_unsigned_int = 8, hostname_digest = d, pid = q, now = t\<rparr>
     None 0xFFFFFD
     = (be_bytes 4 t @ take 3 d @ be_bytes 2 q @ [0xFF, 0xFF, 0xFE], 0xFFFFFE)
   \<and> objectid_generate \<lparr>sizeof_unsigned_int = 8, hostname_digest = d, pid = q, now = t\<rparr>
     None 0xFFFFFE
     = (be_bytes 4 t @ take 3 d @ be_bytes 2 q @ [0, 0, 0], 0)"
  by (simp add: objectid_generate_def increment_def be_bytes_def le_bytes_def upt_rec)

section \<open>A top-level argument that is not a hash\<close>

text \<open>
  C10. For an argument that is neither an ordered hash nor a hash, serialize should raise
  \<open>InvalidDocument\<close>. With \<open>move_id\<close> the encoder calls \<open>has_key?\<close> on the argument before
  it looks at its class: for the Integer 5 the host raises \<open>NoMethodError\<close>, and the buffer
  has not been freed.
\<close>

theorem non_hash_with_move_id:
  "method_serialize h (Some 64) (VInteger 5) check_keys True max_sz
   = Inl (NoMethodError, False)"
  by (simp add: buffer_simps encoder_simps)


section \<open>The size cap and the freed buffer\<close>




section \<open>Key checking\<close>

lemma fails_simps [simp]: "fails (Inl e)" "\<not> fails (Inr x)"
  by (simp_all add: fails_def)

lemma fails_and_then1: "fails x \<Longrightarrow> fails (and_then x f)"
  by (cases x) simp_all

lemma fails_and_then2: "(\<And>z. fails (f z)) \<Longrightarrow> fails (and_then x f)"
  by (cases x) simp_all

lemma id_keys_not_rejected [simp]: "\<not> key_rejected id_str" "\<not> key_rejected id_sym"
  by (simp_all add: key_rejected_def key_name_def id_str_def id_sym_def bytes_of_def cstr_def)

lemma write_element_rejected:
  "key_rejected key \<Longrightarrow> allow_id \<or> \<not> reads_as_id key \<Longrightarrow>
   write_element h key v b True allow_id = Inl (InvalidKeyName, True)"
  by (auto simp: write_element.simps key_rejected_def reads_as_id_def split: option.splits)

lemma rejected_fails:
  "ck \<Longrightarrow> allow \<or> \<not> reads_as_id key \<Longrightarrow> key_rejected key \<or> has_rejected_key v \<Longrightarrow>
     fails (write_element h key v b ck allow)"
  "ck \<Longrightarrow> has_rejected_key v \<Longrightarrow> fails (write_value h k v b ck)"
  "ck \<Longrightarrow> rejected_key_written mv d \<Longrightarrow> fails (write_doc h b d ck mv)"
  "ck \<Longrightarrow> \<exists>kv \<in> set kvs. (allow \<or> \<not> reads_as_id (fst kv))
       \<and> (key_rejected (fst kv) \<or> has_rejected_key (snd kv)) \<Longrightarrow>
     fails (rb_hash_foreach h kvs allow b ck)"
  "ck \<Longrightarrow> \<exists>x \<in> set xs. has_rejected_key x \<Longrightarrow> fails (write_items h i xs b ck)"
proof (induction h key v b ck allow and h k v b ck and h b d ck mv and h kvs allow b ck
    and h i xs b ck
    rule: write_element_write_value_write_doc_rb_hash_foreach_write_items.induct)
  case (1 h key v b check_keys allow_id)
  then show ?case
    by (subst write_element.simps)
      (auto simp: key_rejected_def reads_as_id_def split: option.splits)
next
  case (6 h key kvs b check_keys)
  have "fails (write_doc h b' (VHash kvs) check_keys False)"
    if "write_name_and_type b key 3 = Inr b'" for b'
    by (rule 6(1)) (use that 6(2,3) in \<open>auto simp: rejected_key_written_def written_entries_def\<close>)
  then show ?case
    by (cases "write_name_and_type b key 3") simp_all
next
  case (7 h key items b check_keys)
  have *: "fails (write_items h 0 items b' check_keys)"
    if "bson_buffer_save_space z 4 = Some (loc, b')" for z loc b'
    using 7(1) [OF refl that refl] 7(2,3) by simp
  show ?case
    unfolding write_value.simps
    by (rule fails_and_then2) (auto simp: Let_def split: option.splits intro!: fails_and_then1 *)
next
  case (25 h b hash check_keys move_id)
  from 25(5) obtain kvs where hash: "hash = VHash kvs"
    by (cases hash) (simp_all add: rejected_key_written_def)
  from 25(5) hash obtain kv where kv: "kv \<in> set (written_entries move_id kvs)"
      "key_rejected (fst kv) \<or> has_rejected_key (snd kv)"
    by (auto simp: rejected_key_written_def)
  show ?case
  proof (cases "bson_buffer_save_space b 4")
    case None
    then show ?thesis by (simp add: write_doc.simps)
  next
    case (Some a)
    obtain loc b' where a: "a = (loc, b')" by (cases a)
    note sp = Some [unfolded a]
    have e3: "fails (rb_hash_foreach h kvs (\<not> move_id) z check_keys)"
      if "\<exists>kv \<in> set kvs. (\<not> move_id \<or> \<not> reads_as_id (fst kv))
          \<and> (key_rejected (fst kv) \<or> has_rejected_key (snd kv))" for z
      by (rule 25(3)) (use sp hash that 25(4) in \<open>auto simp: comma_expression_is_zero_def\<close>)
    show ?thesis
    proof (cases "move_id \<and> kv \<notin> set (filter (\<lambda>kv. \<not> reads_as_id (fst kv)) kvs)")
      case True
      with kv consider
          (str) "id_str \<in> fst ` set kvs" "has_rejected_key (rb_hash_aref hash id_str)"
        | (sym) "id_str \<notin> fst ` set kvs" "id_sym \<in> fst ` set kvs"
            "has_rejected_key (rb_hash_aref hash id_sym)"
        by (auto simp: written_entries_def hash split: if_splits)
      then show ?thesis
      proof cases
        case str
        have "fails (write_element h id_str (rb_hash_aref hash id_str) b' check_keys True)"
          by (rule 25(1)) (use sp True str hash 25(4) in \<open>auto simp: has_key_def\<close>)
        with True str hash sp show ?thesis
          by (subst write_doc.simps) (simp add: has_key_def fails_and_then1)
      next
        case sym
        have "fails (write_element h id_sym (rb_hash_aref hash id_sym) b' check_keys True)"
          by (rule 25(2)) (use sp True sym hash 25(4) in \<open>auto simp: has_key_def\<close>)
        with True sym hash sp show ?thesis
          by (subst write_doc.simps) (simp add: has_key_def fails_and_then1)
      qed
    next
      case False
      with kv have "\<exists>kv \<in> set kvs. (\<not> move_id \<or> \<not> reads_as_id (fst kv))
          \<and> (key_rejected (fst kv) \<or> has_rejected_key (snd kv))"
        by (cases move_id) (auto simp: written_entries_def)
      from e3 [OF this]
      have f: "fails (rb_hash_foreach h kvs (\<not> move_id) z check_keys)" for z .
      have "fails (and_then X (\<lambda>z. and_then (rb_hash_foreach h kvs (\<not> move_id) z check_keys) G))"
        for X :: "bson_buffer raises" and G
        by (intro fails_and_then2 fails_and_then1 f)
      moreover
      have "fails (and_then (rb_hash_foreach h kvs (\<not> move_id) z check_keys) G)" for z G
        by (intro fails_and_then1 f)
      ultimately show ?thesis
        using hash sp
        by (cases move_id; subst write_doc.simps)
          (simp_all add: Let_def comma_expression_is_zero_def)
    qed
  qed
next
  case (27 h key v rest allow_id b check_keys)
  then show ?case
    by (auto intro: fails_and_then1 fails_and_then2)
next
  case (29 h i item rest b check_keys)
  then show ?case
    by (auto intro: fails_and_then1 fails_and_then2)
qed auto

lemma key_checked_refl [simp]: "key_checked r r"
  by (simp add: key_checked_def split: sum.splits)

lemma key_checked_Inl [simp]: "key_checked (Inl e) r'"
  by (simp add: key_checked_def)

lemma key_checked_InvalidKeyName [simp]: "key_checked r (Inl (InvalidKeyName, True))"
  by (simp add: key_checked_def split: sum.splits)

lemma key_checked_and_then [intro!]:
  "key_checked x x' \<Longrightarrow> (\<And>z. key_checked (f z) (f' z)) \<Longrightarrow>
   key_checked (and_then x f) (and_then x' f')"
proof (cases x)
  case (Inr b)
  assume x: "key_checked x x'" and f: "\<And>z. key_checked (f z) (f' z)"
  from x Inr consider "x' = Inr b" | "x' = Inl (InvalidKeyName, True)"
    by (auto simp: key_checked_def)
  then show ?thesis
  proof cases
    case 1
    with Inr f [of b] show ?thesis by simp
  next
    case 2
    with Inr show ?thesis by simp
  qed
qed simp

lemma key_checked_encoder:
  "key_checked (write_element h key v b False allow) (write_element h key v b ck allow)"
  "key_checked (write_value h k v b False) (write_value h k v b ck)"
  "key_checked (write_doc h b d False mv) (write_doc h b d ck mv)"
  "key_checked (rb_hash_foreach h kvs allow b False) (rb_hash_foreach h kvs allow b ck)"
  "key_checked (write_items h i xs b False) (write_items h i xs b ck)"
proof (induction h key v b ck allow and h k v b ck and h b d ck mv and h kvs allow b ck
    and h i xs b ck
    rule: write_element_write_value_write_doc_rb_hash_foreach_write_items.induct)
  case (1 h key v b check_keys allow_id)
  then show ?case
    by (auto simp: write_element.simps split: option.splits)
next
  case (25 h b hash check_keys move_id)
  have e1: "key_checked (write_element h id_str (rb_hash_aref hash id_str) b' False True)
      (write_element h id_str (rb_hash_aref hash id_str) b' check_keys True)"
    if "bson_buffer_save_space b 4 = Some (loc, b')" "move_id" "has_key hash id_str = Some True"
    for loc b'
    by (rule 25(1)) (use that in auto)
  have e2: "key_checked (write_element h id_sym (rb_hash_aref hash id_sym) b' False True)
      (write_element h id_sym (rb_hash_aref hash id_sym) b' check_keys True)"
    if "bson_buffer_save_space b 4 = Some (loc, b')" "move_id" "has_key hash id_str = Some False"
     "has_key hash id_sym = Some True"
    for loc b'
    by (rule 25(2)) (use that in auto)
  have e3: "key_checked (rb_hash_foreach h kvs a b' False)
      (rb_hash_foreach h kvs a b' check_keys)"
    if "bson_buffer_save_space b 4 = Some (loc, b'')" "hash = VHash kvs" "a = (\<not> move_id)"
    for loc b' b'' kvs a
    unfolding that(3)
    by (rule 25(3)) (use that in \<open>auto simp: comma_expression_is_zero_def\<close>)
  show ?case
    apply (subst write_doc.simps)
    apply (subst write_doc.simps)
    apply (simp add: Let_def comma_expression_is_zero_def split: option.splits prod.splits)
    apply (intro allI impI conjI key_checked_and_then)
    apply (auto intro: e1 e2 e3 split: option.splits val.splits bool.splits)
    done
qed (auto simp: Let_def split: option.splits)

text \<open>
  C7, as the claim states it, fails for the keys of a Code value's scope document, which
  is written with key checking disabled: with \<open>check_keys\<close> a document that holds the key
  \<open>$a\<close> there is serialized.
\<close>

theorem code_scope_keys_not_checked:
  "method_serialize ruby (Some 64)
     (VHash [(KString (bytes_of ''c''),
              VCode (bytes_of ''x'') (VHash [(KString (bytes_of ''$a''), VInteger 1)]))])
     True False 4194304
   = Inr ([31, 0, 0, 0] @ [0x0F] @ bytes_of ''c'' @ [0] @ [23, 0, 0, 0]
          @ [2, 0, 0, 0] @ bytes_of ''x'' @ [0]
          @ [13, 0, 0, 0] @ [0x10] @ bytes_of ''$a'' @ [0] @ [1, 0, 0, 0] @ [0] @ [0])"
  by (simp add: buffer_simps encoder_simps upt_rec)

text \<open>
  C7, amended. With \<open>check_keys\<close>, \<open>write_element\<close> raises \<open>InvalidKeyName\<close> for every key (a
  string, or the name of a symbol) that begins with \<open>$\<close> or contains \<open>.\<close> and that it does
  not skip as an \<open>_id\<close>. Hashes and arrays pass the flag on: for a document in which an
  entry that is written has such a key, at top level or inside nested hashes and arrays,
  serialize with \<open>check_keys\<close> returns no bytes, with or without \<open>move_id\<close>, and it raises
  \<open>InvalidKeyName\<close> whenever the same call without \<open>check_keys\<close> returns bytes. This is
  stated for the documents in which no hash has both the key \<open>"_id"\<close> and the key \<open>:_id\<close>.
  The sub-document of a DBRef and the scope of a Code value are written with key checking
  disabled: the flag has no effect on them.
\<close>

theorem key_check_and_its_bypass:
  "(key_rejected key \<and> (allow_id \<or> \<not> reads_as_id key) \<longrightarrow>
      write_element h key v b True allow_id = Inl (InvalidKeyName, True))
   \<and> (rejected_key_written mv d \<and> \<not> both_ids d \<longrightarrow>
        fails (method_serialize h mem d True mv m)
        \<and> (method_serialize h mem d False mv m = Inr bs \<longrightarrow>
             method_serialize h mem d True mv m = Inl (InvalidKeyName, True)))
   \<and> write_value h k (VDBRef ns oid) b True = write_value h k (VDBRef ns oid) b False
   \<and> write_value h k (VCode code_str scope) b True = write_value h k (VCode code_str scope) b False"
proof -
  have 1: "write_element h key v b True allow_id = Inl (InvalidKeyName, True)"
    if "key_rejected key" "allow_id \<or> \<not> reads_as_id key"
    using that by (rule write_element_rejected)
  have 2: "fails (method_serialize h mem d True mv m)" if "rejected_key_written mv d"
  proof (cases mem)
    case None
    then show ?thesis by (simp add: method_serialize_def)
  next
    case (Some mm)
    then show ?thesis
      using rejected_fails(3) [OF _ that, of True h]
      by (simp add: method_serialize_def fails_and_then1)
  qed
  have 3: "method_serialize h mem d True mv m = Inl (InvalidKeyName, True)"
    if r: "rejected_key_written mv d" and ok: "method_serialize h mem d False mv m = Inr bs"
  proof -
    from ok obtain mm where mem: "mem = Some mm"
      by (cases mem) (simp_all add: method_serialize_def)
    define b0 where "b0 = bson_buffer_set_max_size (bson_buffer_new mm) m"
    from ok mem obtain b' where f: "write_doc h b0 d False mv = Inr b'"
      by (auto simp: method_serialize_def b0_def elim!: and_thenE)
    have "key_checked (write_doc h b0 d False mv) (write_doc h b0 d True mv)"
      by (rule key_checked_encoder)
    with f consider "write_doc h b0 d True mv = Inr b'"
      | "write_doc h b0 d True mv = Inl (InvalidKeyName, True)"
      by (auto simp: key_checked_def)
    then show ?thesis
    proof cases
      case 1
      with rejected_fails(3) [OF _ r, of True h b0] show ?thesis by simp
    next
      case 2
      then show ?thesis by (simp add: method_serialize_def mem b0_def)
    qed
  qed
  from 1 2 3 show ?thesis by simp
qed

theorem key_check_witness:
  "write_element ruby (KString (bytes_of ''$x'')) (VInteger 1) (bson_buffer_new 64) True True
     = Inl (InvalidKeyName, True)
   \<and> method_serialize ruby (Some 64)
       (VHash [(KString (bytes_of ''a''), VArray [VHash [(KSymbol (bytes_of ''b.c''), VNil)]])])
       True True 4194304
     = Inl (InvalidKeyName, True)
   \<and> write_value ruby (bytes_of ''a'')
       (VDBRef (VString (bytes_of ''c'')) (VObjectId [1, 2, 3, 4, 5, 6, 7, 8, 9, 10, 11, 12]))
       (bson_buffer_new 64) True
     = Inr ((bson_buffer_new 64)\<lparr>buffer := [0x03] @ bytes_of ''a'' @ [0] @ [34, 0, 0, 0]
         @ [0x02] @ bytes_of ''$ref'' @ [0] @ [2, 0, 0, 0] @ bytes_of ''c'' @ [0]
         @ [0x07] @ bytes_of ''$id'' @ [0] @ [1, 2, 3, 4, 5, 6, 7, 8, 9, 10, 11, 12] @ [0]\<rparr>)"
proof -
  let ?d = "VHash [(KString (bytes_of ''a''), VArray [VHash [(KSymbol (bytes_of ''b.c''), VNil)]])]"
  have k: "key_rejected (KString (bytes_of ''$x''))"
    by (simp add: key_rejected_def key_name_def bytes_of_def)
  have r: "rejected_key_written True ?d"
    by (simp add: rejected_key_written_def written_entries_def reads_as_id_def key_rejected_def
        key_name_def bytes_of_def cstr_def id_str_def id_sym_def)
  have n: "\<not> both_ids ?d"
    by (simp add: id_str_def id_sym_def bytes_of_def)
  have s: "method_serialize ruby (Some 64) ?d False True 4194304
     = Inr ([26, 0, 0, 0] @ [0x04] @ bytes_of ''a'' @ [0] @ [18, 0, 0, 0]
         @ [0x03] @ bytes_of ''0'' @ [0] @ [10, 0, 0, 0] @ [0x0A] @ bytes_of ''b.c'' @ [0]
         @ [0] @ [0] @ [0])"
    by (simp add: buffer_simps encoder_simps upt_rec INT2STRING.simps)
  have d: "write_value ruby (bytes_of ''a'')
       (VDBRef (VString (bytes_of ''c'')) (VObjectId [1, 2, 3, 4, 5, 6, 7, 8, 9, 10, 11, 12]))
       (bson_buffer_new 64) False
     = Inr ((bson_buffer_new 64)\<lparr>buffer := [0x03] @ bytes_of ''a'' @ [0] @ [34, 0, 0, 0]
         @ [0x02] @ bytes_of ''$ref'' @ [0] @ [2, 0, 0, 0] @ bytes_of ''c'' @ [0]
         @ [0x07] @ bytes_of ''$id'' @ [0] @ [1, 2, 3, 4, 5, 6, 7, 8, 9, 10, 11, 12] @ [0]\<rparr>)"
    by (simp add: buffer_simps encoder_simps oid_bytes_def upt_rec)
  from k r n s d show ?thesis
    using key_check_and_its_bypass [of "KString (bytes_of ''$x'')" True ruby "VInteger 1"
        "bson_buffer_new 64" True ?d "Some 64" 4194304
        "[26, 0, 0, 0] @ [0x04] @ bytes_of ''a'' @ [0] @ [18, 0, 0, 0]
         @ [0x03] @ bytes_of ''0'' @ [0] @ [10, 0, 0, 0] @ [0x0A] @ bytes_of ''b.c'' @ [0]
         @ [0] @ [0] @ [0]"
        "bytes_of ''a''" "VString (bytes_of ''c'')"
        "VObjectId [1, 2, 3, 4, 5, 6, 7, 8, 9, 10, 11, 12]"]
    by simp
qed

section \<open>Little-endian integers\<close>

lemma le_bytes_Suc: "le_bytes (Suc n) i = word_of_int i # le_bytes n (i div 256)"
proof -
  have "map (\<lambda>k. word_of_int (i div 256 ^ k) :: byte) [0..<Suc n]
      = word_of_int i # map (\<lambda>k. word_of_int (i div 256 ^ Suc k)) [0..<n]"
    by (simp add: upt_conv_Cons map_Suc_upt [symmetric] del: upt_Suc)
  also have "map (\<lambda>k. word_of_int (i div 256 ^ Suc k) :: byte) [0..<n]
      = map (\<lambda>k. word_of_int (i div 256 div 256 ^ k)) [0..<n]"
    by (simp add: zdiv_zmult2_eq)
  finally show ?thesis by (simp add: le_bytes_def)
qed

lemma length_le_bytes [simp]: "length (le_bytes n i) = n"
  by (simp add: le_bytes_def)

lemma le_uint_le_bytes: "le_uint (le_bytes n i) = i mod 256 ^ n"
proof (induction n arbitrary: i)
  case 0
  show ?case by (simp add: le_bytes_def)
next
  case (Suc n)
  have "uint (word_of_int i :: byte) = i mod 256"
    by (simp add: uint_word_of_int take_bit_eq_mod)
  then show ?case
    by (simp add: le_bytes_Suc Suc zmod_zmult2_eq)
qed

lemma sint32_le_bytes: "- (2 ^ 31) \<le> i \<Longrightarrow> i < 2 ^ 31 \<Longrightarrow> sint32 (le_bytes 4 i) = i"
proof -
  assume i: "- (2 ^ 31) \<le> i" "i < 2 ^ 31"
  have "(word_of_int (i mod 256 ^ 4) :: 32 word) = word_of_int i"
    by (simp add: word_of_int_eq_iff take_bit_eq_mod)
  then have "sint32 (le_bytes 4 i) = sint (word_of_int i :: 32 word)"
    by (simp add: sint32_def le_uint_le_bytes)
  also have "\<dots> = i"
    using i by (simp add: sint_sbintrunc' signed_take_bit_int_eq_self)
  finally show ?thesis .
qed

lemma sint64_le_bytes: "- (2 ^ 63) \<le> i \<Longrightarrow> i < 2 ^ 63 \<Longrightarrow> sint64 (le_bytes 8 i) = i"
proof -
  assume i: "- (2 ^ 63) \<le> i" "i < 2 ^ 63"
  have "(word_of_int (i mod 256 ^ 8) :: 64 word) = word_of_int i"
    by (simp add: word_of_int_eq_iff take_bit_eq_mod)
  then have "sint64 (le_bytes 8 i) = sint (word_of_int i :: 64 word)"
    by (simp add: sint64_def le_uint_le_bytes)
  also have "\<dots> = i"
    using i by (simp add: sint_sbintrunc' signed_take_bit_int_eq_self)
  finally show ?thesis .
qed

lemma word64_le_bytes: "word_of_int (le_uint (le_bytes 8 (uint d))) = (d :: 64 word)"
proof -
  have "uint d mod 256 ^ 8 = uint d"
    using uint_bounded [of d] by simp
  then show ?thesis by (simp only: le_uint_le_bytes word_of_int_uint)
qed

lemma word32_le_bytes: "word_of_int (le_uint (le_bytes 4 (uint d))) = (d :: 32 word)"
proof -
  have "uint d mod 256 ^ 4 = uint d"
    using uint_bounded [of d] by simp
  then show ?thesis by (simp only: le_uint_le_bytes word_of_int_uint)
qed

lemma read_int_append:
  "p = int (length pre) \<Longrightarrow> - (2 ^ 31) \<le> i \<Longrightarrow> i < 2 ^ 31 \<Longrightarrow>
   read_int (pre @ le_bytes 4 i @ post) p = Inr i"
  by (simp add: read_int_def sint32_le_bytes)



lemma valid_no_NUL: "validate_utf8_encoding s False = VALID \<Longrightarrow> 0 \<notin> set s"
  by (induction s "False" rule: validate_utf8_encoding.induct)
    (auto simp: Let_def cont_def unat_eq_0 split: if_splits list.splits)

lemma cstr_no_NUL: "0 \<notin> set s \<Longrightarrow> cstr s = s"
  by (induction s) (simp_all add: cstr_def)

section \<open>Integers\<close>

lemma write_int_element:
  assumes k: "key = KString k \<or> key = KSymbol k" and a: "key_accepted check_keys k"
    and i: "allow_id \<or> k \<noteq> bytes_of ''_id''"
    and m: "length (buffer b) + length k + 10 \<le> avail b"
  shows "write_element h key (VInteger n) b check_keys allow_id =
     (if n < - (2 ^ 63) \<or> 2 ^ 63 - 1 < n then Inl (RangeError, True)
      else if n < - (2 ^ 31) \<or> 2 ^ 31 - 1 < n
      then Inr (b\<lparr>buffer := buffer b @ [0x12] @ k @ [0] @ le_bytes 8 n\<rparr>)
      else Inr (b\<lparr>buffer := buffer b @ [0x10] @ k @ [0] @ le_bytes 4 n\<rparr>))"
proof -
  from a have nn: "0 \<notin> set k"
    by (simp add: key_accepted_def valid_no_NUL)
  with k have kn: "key_name key = Some k"
    by (auto simp: key_name_def cstr_no_NUL)
  have nt: "write_name_and_type b k t = Inr (b\<lparr>buffer := buffer b @ [t] @ k @ [0]\<rparr>)" for t
    using a m by (intro write_name_and_type_ok) (simp_all add: key_accepted_def)
  show ?thesis
    using a i m nn
    by (auto simp: write_element.simps kn key_accepted_def nt fixnum_def SAFE_WRITE_def
        bson_buffer_write_def cstr_no_NUL)
qed

lemma length_replicate4 [simp]: "drop 4 (replicate 4 (0 :: byte) @ xs) = xs"
  by simp

lemma and_then_Inr [simp]: "and_then x Inr = x"
  by (cases x) simp_all

lemma serialize_int_entry:
  assumes k: "key = KString k \<or> key = KSymbol k" and a: "key_accepted check_keys k"
    and m: "length k + 15 \<le> mm"
  shows "method_serialize h (Some mm) (VHash [(key, VInteger n)]) check_keys move_id max_sz =
     (if n < - (2 ^ 63) \<or> 2 ^ 63 - 1 < n then Inl (RangeError, True)
      else let e = (if n < - (2 ^ 31) \<or> 2 ^ 31 - 1 < n
                    then [0x12] @ k @ [0] @ le_bytes 8 n else [0x10] @ k @ [0] @ le_bytes 4 n)
           in if max_sz < int (length e) + 5 then Inl (InvalidDocument, True)
              else Inr (le_bytes 4 (int (length e) + 5) @ e @ [0]))"
proof -
  define b1 where "b1 = \<lparr>buffer = replicate 4 (0 :: byte), max_size = max_sz, avail = mm\<rparr>"
  from a have nn: "0 \<notin> set k"
    by (simp add: key_accepted_def valid_no_NUL)
  with k have kn: "key_name key = Some k"
    by (auto simp: key_name_def cstr_no_NUL)
  have W: "write_element h key (VInteger n) b1 check_keys allow =
     (if n < - (2 ^ 63) \<or> 2 ^ 63 - 1 < n then Inl (RangeError, True)
      else if n < - (2 ^ 31) \<or> 2 ^ 31 - 1 < n
      then Inr (b1\<lparr>buffer := buffer b1 @ [0x12] @ k @ [0] @ le_bytes 8 n\<rparr>)
      else Inr (b1\<lparr>buffer := buffer b1 @ [0x10] @ k @ [0] @ le_bytes 4 n\<rparr>))"
    if "allow \<or> k \<noteq> bytes_of ''_id''" for allow
    using k a that by (rule write_int_element) (use m in \<open>simp add: b1_def\<close>)
  have skip: "write_element h id_str v b check_keys False = Inr b"
    "write_element h id_sym v b check_keys False = Inr b" for v b
    by (simp_all add: write_element.simps key_name_def id_str_def id_sym_def cstr_def bytes_of_def)
  have ids: "key = id_str \<or> key = id_sym" if "k = bytes_of ''_id''"
    using k that by (auto simp: id_str_def id_sym_def)
  have nids: "key \<noteq> id_str \<and> key \<noteq> id_sym" if "k \<noteq> bytes_of ''_id''"
    using k that by (auto simp: id_str_def id_sym_def)
  have neq: "id_str \<noteq> id_sym"
    by (simp add: id_str_def id_sym_def)
  have doc: "write_doc h \<lparr>buffer = [], max_size = max_sz, avail = mm\<rparr>
        (VHash [(key, VInteger n)]) check_keys move_id
      = and_then (write_element h key (VInteger n) b1 check_keys True) (\<lambda>b.
        and_then (SAFE_WRITE b [0]) (\<lambda>b.
        if int (length (buffer b)) > max_size b then Inl (InvalidDocument, True)
        else SAFE_WRITE_AT_POS b 0 (le_bytes 4 (int (length (buffer b))))))"
  proof (cases "move_id \<and> k = bytes_of ''_id''")
    case True
    with ids have "key = id_str \<or> key = id_sym" by simp
    then show ?thesis
    proof
      assume "key = id_str"
      with True m show ?thesis
        by (subst write_doc.simps)
          (simp add: buffer_simps has_key_def rb_hash_aref_def comma_expression_is_zero_def
            skip b1_def Let_def cong: if_cong)
    next
      assume "key = id_sym"
      with True m neq show ?thesis
        by (subst write_doc.simps)
          (simp add: buffer_simps has_key_def rb_hash_aref_def comma_expression_is_zero_def
            skip b1_def Let_def cong: if_cong)
    qed
  next
    case False
    then have "\<not> move_id \<or> k \<noteq> bytes_of ''_id''" by simp
    then have *: "write_element h key (VInteger n) b1 check_keys (\<not> move_id)
        = write_element h key (VInteger n) b1 check_keys True"
      by (subst W, simp, subst W, simp_all)
    show ?thesis
    proof (cases move_id)
      case True
      with False nids have "key \<noteq> id_str" "key \<noteq> id_sym" by simp_all
      with True m * show ?thesis
        by (subst write_doc.simps)
          (simp add: buffer_simps has_key_def comma_expression_is_zero_def b1_def Let_def
            cong: if_cong)
    next
      case False
      with m show ?thesis
        by (subst write_doc.simps)
          (simp add: buffer_simps comma_expression_is_zero_def b1_def Let_def cong: if_cong)
    qed
  qed
  have W': "write_element h key (VInteger n) b1 check_keys True =
     (if n < - (2 ^ 63) \<or> 2 ^ 63 - 1 < n then Inl (RangeError, True)
      else if n < - (2 ^ 31) \<or> 2 ^ 31 - 1 < n
      then Inr (b1\<lparr>buffer := buffer b1 @ [0x12] @ k @ [0] @ le_bytes 8 n\<rparr>)
      else Inr (b1\<lparr>buffer := buffer b1 @ [0x10] @ k @ [0] @ le_bytes 4 n\<rparr>))"
    by (rule W) simp
  have "method_serialize h (Some mm) (VHash [(key, VInteger n)]) check_keys move_id max_sz
      = and_then (write_element h key (VInteger n) b1 check_keys True) (\<lambda>b.
        and_then (and_then (SAFE_WRITE b [0]) (\<lambda>b.
        if int (length (buffer b)) > max_size b then Inl (InvalidDocument, True)
        else SAFE_WRITE_AT_POS b 0 (le_bytes 4 (int (length (buffer b)))))) (\<lambda>b.
        Inr (take (length (buffer b)) (buffer b))))"
    by (cases "write_element h key (VInteger n) b1 check_keys True")
      (simp_all add: method_serialize_def bson_buffer_new_def bson_buffer_set_max_size_def
        bson_buffer_get_position_def doc)
  also have "\<dots> =
     (if n < - (2 ^ 63) \<or> 2 ^ 63 - 1 < n then Inl (RangeError, True)
      else let e = (if n < - (2 ^ 31) \<or> 2 ^ 31 - 1 < n
                    then [0x12] @ k @ [0] @ le_bytes 8 n else [0x10] @ k @ [0] @ le_bytes 4 n)
           in if max_sz < int (length e) + 5 then Inl (InvalidDocument, True)
              else Inr (le_bytes 4 (int (length e) + 5) @ e @ [0]))"
    unfolding W' using m by (simp add: buffer_simps b1_def Let_def)
  finally show ?thesis .
qed

text \<open>
  C5, as the claim states it, fails where another error comes first: with \<open>check_keys\<close> the
  key \<open>$x\<close> raises \<open>InvalidKeyName\<close> before the value is looked at, and the integer \<open>2^63\<close>
  stored under it raises no \<open>RangeError\<close>.
\<close>

theorem key_check_precedes_range_check:
  "method_serialize ruby (Some 64) (VHash [(KString (bytes_of ''$x''), VInteger (2 ^ 63))])
     True False 4194304
   = Inl (InvalidKeyName, True)"
  by (simp add: buffer_simps encoder_simps)

text \<open>
  C5, amended. Let the key be a string or a symbol whose name is accepted (UTF-8 without
  NUL, and passing the key check when \<open>check_keys\<close> is on). When \<open>write_element\<close> does not
  skip the key as an \<open>_id\<close> and the buffer can grow by the element, it appends tag 0x10, the
  name and four bytes exactly when the integer lies in \<open>[-2^31, 2^31 - 1]\<close>, tag 0x12, the
  name and eight bytes exactly when it lies outside that range and in \<open>[-2^63, 2^63 - 1]\<close>,
  and it raises \<open>RangeError\<close> exactly when it lies outside \<open>[-2^63, 2^63 - 1]\<close>. Serialize
  of the document with this one entry returns the length, that element and a NUL, or
  raises \<open>RangeError\<close>, or \<open>InvalidDocument\<close> when the encoding is longer than the maximal
  size. The four and the eight bytes are the integer: reading them back as a signed
  little-endian integer gives it.
\<close>

theorem integer_tag_selection:
  assumes "key = KString k \<or> key = KSymbol k" and "key_accepted check_keys k"
  shows "(allow_id \<or> k \<noteq> bytes_of ''_id'' \<longrightarrow> length (buffer b) + length k + 10 \<le> avail b \<longrightarrow>
           (- (2 ^ 31) \<le> n \<and> n \<le> 2 ^ 31 - 1 \<longleftrightarrow>
              write_element h key (VInteger n) b check_keys allow_id
              = Inr (b\<lparr>buffer := buffer b @ [0x10] @ k @ [0] @ le_bytes 4 n\<rparr>))
         \<and> ((n < - (2 ^ 31) \<or> 2 ^ 31 - 1 < n) \<and> - (2 ^ 63) \<le> n \<and> n \<le> 2 ^ 63 - 1 \<longleftrightarrow>
              write_element h key (VInteger n) b check_keys allow_id
              = Inr (b\<lparr>buffer := buffer b @ [0x12] @ k @ [0] @ le_bytes 8 n\<rparr>))
         \<and> (n < - (2 ^ 63) \<or> 2 ^ 63 - 1 < n \<longleftrightarrow>
              write_element h key (VInteger n) b check_keys allow_id = Inl (RangeError, True)))
       \<and> (length k + 15 \<le> mm \<longrightarrow>
           method_serialize h (Some mm) (VHash [(key, VInteger n)]) check_keys move_id max_sz =
             (if n < - (2 ^ 63) \<or> 2 ^ 63 - 1 < n then Inl (RangeError, True)
              else let e = (if n < - (2 ^ 31) \<or> 2 ^ 31 - 1 < n
                            then [0x12] @ k @ [0] @ le_bytes 8 n
                            else [0x10] @ k @ [0] @ le_bytes 4 n)
                   in if max_sz < int (length e) + 5 then Inl (InvalidDocument, True)
                      else Inr (le_bytes 4 (int (length e) + 5) @ e @ [0])))
       \<and> length (le_bytes 4 i) = 4 \<and> length (le_bytes 8 i) = 8
       \<and> (- (2 ^ 31) \<le> i \<and> i < 2 ^ 31 \<longrightarrow> sint32 (le_bytes 4 i) = i)
       \<and> (- (2 ^ 63) \<le> i \<and> i < 2 ^ 63 \<longrightarrow> sint64 (le_bytes 8 i) = i)"
proof -
  have el: "(- (2 ^ 31) \<le> n \<and> n \<le> 2 ^ 31 - 1 \<longleftrightarrow>
              write_element h key (VInteger n) b check_keys allow_id
              = Inr (b\<lparr>buffer := buffer b @ [0x10] @ k @ [0] @ le_bytes 4 n\<rparr>))
         \<and> ((n < - (2 ^ 31) \<or> 2 ^ 31 - 1 < n) \<and> - (2 ^ 63) \<le> n \<and> n \<le> 2 ^ 63 - 1 \<longleftrightarrow>
              write_element h key (VInteger n) b check_keys allow_id
              = Inr (b\<lparr>buffer := buffer b @ [0x12] @ k @ [0] @ le_bytes 8 n\<rparr>))
         \<and> (n < - (2 ^ 63) \<or> 2 ^ 63 - 1 < n \<longleftrightarrow>
              write_element h key (VInteger n) b check_keys allow_id = Inl (RangeError, True))"
    if "allow_id \<or> k \<noteq> bytes_of ''_id''" "length (buffer b) + length k + 10 \<le> avail b"
    unfolding write_int_element [OF assms that] by auto
  have ser: "method_serialize h (Some mm) (VHash [(key, VInteger n)]) check_keys move_id max_sz =
             (if n < - (2 ^ 63) \<or> 2 ^ 63 - 1 < n then Inl (RangeError, True)
              else let e = (if n < - (2 ^ 31) \<or> 2 ^ 31 - 1 < n
                            then [0x12] @ k @ [0] @ le_bytes 8 n
                            else [0x10] @ k @ [0] @ le_bytes 4 n)
                   in if max_sz < int (length e) + 5 then Inl (InvalidDocument, True)
                      else Inr (le_bytes 4 (int (length e) + 5) @ e @ [0]))"
    if "length k + 15 \<le> mm"
    using assms that by (rule serialize_int_entry)
  have rd: "- (2 ^ 31) \<le> i \<and> i < 2 ^ 31 \<longrightarrow> sint32 (le_bytes 4 i) = i"
    "- (2 ^ 63) \<le> i \<and> i < 2 ^ 63 \<longrightarrow> sint64 (le_bytes 8 i) = i"
    by (simp_all add: sint32_le_bytes sint64_le_bytes)
  have ln: "length (le_bytes 4 i) = 4" "length (le_bytes 8 i) = 8"
    by simp_all
  from el ser rd ln show ?thesis
    by blast
qed

theorem integer_tag_selection_witness:
  "method_serialize ruby (Some 64) (VHash [(KString (bytes_of ''n''), VInteger 2147483647)])
     True True 4194304
     = Inr [12, 0, 0, 0, 0x10, 110, 0, 0xFF, 0xFF, 0xFF, 0x7F, 0]
   \<and> method_serialize ruby (Some 64) (VHash [(KString (bytes_of ''n''), VInteger 2147483648)])
     True True 4194304
     = Inr [16, 0, 0, 0, 0x12, 110, 0, 0, 0, 0, 0x80, 0, 0, 0, 0, 0]
   \<and> method_serialize ruby (Some 64) (VHash [(KString (bytes_of ''n''), VInteger (2 ^ 63))])
     True True 4194304
     = Inl (RangeError, True)
   \<and> write_element ruby (KString (bytes_of ''n'')) (VInteger (- 1)) (bson_buffer_new 64) True True
     = Inr ((bson_buffer_new 64)\<lparr>buffer := [0x10, 110, 0, 0xFF, 0xFF, 0xFF, 0xFF]\<rparr>)
   \<and> sint32 [0xFF, 0xFF, 0xFF, 0xFF] = - 1"
proof -
  have k: "KString (bytes_of ''n'') = KString (bytes_of ''n'')
      \<or> KString (bytes_of ''n'') = KSymbol (bytes_of ''n'')"
    by simp
  have a: "key_accepted True (bytes_of ''n'')"
    by (simp add: key_accepted_def bytes_of_def)
  have le: "le_bytes 4 2147483647 = [0xFF, 0xFF, 0xFF, 0x7F]"
    "le_bytes 8 2147483648 = [0, 0, 0, 0x80, 0, 0, 0, 0]"
    "le_bytes 4 (- 1) = [0xFF, 0xFF, 0xFF, 0xFF]"
    "le_bytes 4 12 = [12, 0, 0, 0]" "le_bytes 4 16 = [16, 0, 0, 0]"
    by (simp_all add: le_bytes_def upt_rec)
  show ?thesis
    using integer_tag_selection [OF k a, of True "bson_buffer_new 64" 2147483647 ruby 64 True 4194304 0]
      integer_tag_selection [OF k a, of True "bson_buffer_new 64" 2147483648 ruby 64 True 4194304 0]
      integer_tag_selection [OF k a, of True "bson_buffer_new 64" "2 ^ 63" ruby 64 True 4194304 0]
      integer_tag_selection [OF k a, of True "bson_buffer_new 64" "- 1" ruby 64 True 4194304 "- 1"]
    by (simp add: bson_buffer_new_def bytes_of_def le)
qed

section \<open>The encoder computes the encoding\<close>


lemma and_then_eq_Inr: "(and_then x f = Inr y) = (\<exists>z. x = Inr z \<and> f z = Inr y)"
  by (cases x) auto

lemma SAFE_WRITE_Inr:
  "(SAFE_WRITE b d = Inr b') =
   (length (buffer b) + length d \<le> avail b \<and> b' = b\<lparr>buffer := buffer b @ d\<rparr>)"
  by (auto simp: SAFE_WRITE_def bson_buffer_write_def)

lemma SAFE_WRITE_AT_POS_Inr:
  "(SAFE_WRITE_AT_POS b p d = Inr b') =
   (p + length d \<le> length (buffer b) \<and> b' = b\<lparr>buffer := patch (buffer b) p d\<rparr>)"
  by (auto simp: SAFE_WRITE_AT_POS_def bson_buffer_write_at_position_def)

lemma save_space_Some:
  "(bson_buffer_save_space b n = Some (p, b')) =
   (length (buffer b) + n \<le> avail b \<and> p = length (buffer b)
    \<and> b' = b\<lparr>buffer := buffer b @ replicate n 0\<rparr>)"
  by (auto simp: bson_buffer_save_space_def)

lemma write_utf8_Inr:
  "(write_utf8 b s a = Inr b') =
   (validate_utf8_encoding s a = VALID \<and> SAFE_WRITE b s = Inr b')"
  by (simp add: write_utf8_def split: result_t.splits)

lemma patch_slot:
  "length w = length y \<Longrightarrow> n = length x \<Longrightarrow> patch (x @ y @ z) n w = x @ w @ z"
  by (simp add: patch_def)

lemmas success_simps = and_then_eq_Inr SAFE_WRITE_Inr SAFE_WRITE_AT_POS_Inr save_space_Some
  write_utf8_Inr write_name_and_type_def string_element_def binary_element_def
  finish_length_def bson_buffer_get_position_def bson_buffer_get_max_size_def

lemma write_name_and_type_Inr:
  "write_name_and_type b k t = Inr b1 \<Longrightarrow> buffer b1 = buffer b @ t # k @ [0]"
  by (auto simp: success_simps)

lemma length_slot:
  "SAFE_WRITE b3 [0] = Inr b4 \<Longrightarrow>
   SAFE_WRITE_AT_POS b4 loc (le_bytes 4 (int (length (buffer b4)) - int start)) = Inr b' \<Longrightarrow>
   buffer b3 = x @ replicate 4 0 @ els \<Longrightarrow> loc = length x \<Longrightarrow> start = length x \<Longrightarrow>
   buffer b' = x @ document els"
proof -
  assume a: "SAFE_WRITE b3 [0] = Inr b4"
    "SAFE_WRITE_AT_POS b4 loc (le_bytes 4 (int (length (buffer b4)) - int start)) = Inr b'"
    "buffer b3 = x @ replicate 4 0 @ els" "loc = length x" "start = length x"
  then have b4: "buffer b4 = x @ replicate 4 0 @ (els @ [0])"
    by (auto simp: SAFE_WRITE_Inr)
  have len: "int (length (buffer b4)) - int start = int (length els) + 5"
    using a(5) by (simp add: b4)
  from a(2) have "buffer b' = patch (buffer b4) loc (le_bytes 4 (int (length els) + 5))"
    by (auto simp: SAFE_WRITE_AT_POS_Inr len)
  also have "\<dots> = x @ le_bytes 4 (int (length els) + 5) @ (els @ [0])"
    unfolding b4 by (rule patch_slot) (simp_all add: a(4))
  finally show ?thesis by (simp add: document_def)
qed

lemma encodes:
  "\<not> ck \<Longrightarrow> allow \<Longrightarrow> lossless h v \<Longrightarrow> write_element h key v b ck allow = Inr b' \<Longrightarrow>
     buffer b' = buffer b @ tag v # name_of key @ [0] @ payload v"
  "\<not> ck \<Longrightarrow> lossless h v \<Longrightarrow> write_value h k v b ck = Inr b' \<Longrightarrow>
     buffer b' = buffer b @ tag v # k @ [0] @ payload v"
  "\<not> ck \<Longrightarrow> \<not> mv \<Longrightarrow> d = VHash kvs \<Longrightarrow> lossless_entries h kvs \<Longrightarrow>
     write_doc h b d ck mv = Inr b' \<Longrightarrow> buffer b' = buffer b @ document (elements kvs)"
  "\<not> ck \<Longrightarrow> allow \<Longrightarrow> lossless_entries h kvs \<Longrightarrow> rb_hash_foreach h kvs allow b ck = Inr b' \<Longrightarrow>
     buffer b' = buffer b @ elements kvs"
  "\<not> ck \<Longrightarrow> lossless_items h xs \<Longrightarrow> write_items h i xs b ck = Inr b' \<Longrightarrow>
     buffer b' = buffer b @ items i xs"
proof (induction h key v b ck allow and h k v b ck and h b d ck mv and h kvs allow b ck
    and h i xs b ck
    arbitrary: b' and b' and b' kvs and b' and b'
    rule: write_element_write_value_write_doc_rb_hash_foreach_write_items.induct)
  case (1 h key v b check_keys allow_id)
  from 1(2,3,5) obtain k where k: "key_name key = Some k"
    and w: "write_value h k v b check_keys = Inr b'"
    by (auto simp: write_element.simps [of h key v b] split: option.splits if_splits)
  have "buffer b' = buffer b @ tag v # k @ [0] @ payload v"
    by (rule 1(1)) (use k w 1(2-4) in auto)
  then show ?case using k by (simp add: name_of_def)
next
  case (2 h key n b check_keys)
  then show ?case by (auto simp: success_simps split: if_splits)
next
  case (3 h key t b check_keys)
  then show ?case by (auto simp: success_simps)
next
  case (4 h key d b check_keys)
  then show ?case by (auto simp: success_simps)
next
  case (5 h key b check_keys)
  then show ?case by (auto simp: success_simps)
next
  case (6 h key kvs b check_keys)
  from 6(4) obtain b1 where n: "write_name_and_type b key 3 = Inr b1"
    and d: "write_doc h b1 (VHash kvs) check_keys False = Inr b'"
    by (auto simp: and_then_eq_Inr)
  have "buffer b' = buffer b1 @ document (elements kvs)"
    by (rule 6(1)) (use 6(2,3) d in auto)
  with write_name_and_type_Inr [OF n] show ?case by simp
next
  case (7 h key xs b check_keys)
  from 7(4) obtain b1 b2 b3 b4 loc where n: "write_name_and_type b key 4 = Inr b1"
    and sp: "bson_buffer_save_space b1 4 = Some (loc, b2)"
    and wi: "write_items h 0 xs b2 check_keys = Inr b3"
    and z: "SAFE_WRITE b3 [0] = Inr b4"
    and fl: "SAFE_WRITE_AT_POS b4 loc
        (le_bytes 4 (int (length (buffer b4)) - int (length (buffer b1)))) = Inr b'"
    by (auto simp: and_then_eq_Inr Let_def finish_length_def bson_buffer_get_position_def
        split: option.splits)
  have i: "buffer b3 = buffer b2 @ items 0 xs"
    by (rule 7(1) [OF refl sp refl]) (use 7(2,3) wi in auto)
  from sp have b2: "buffer b2 = buffer b1 @ replicate 4 0" and loc: "loc = length (buffer b1)"
    by (auto simp: save_space_Some)
  have "buffer b' = buffer b1 @ document (items 0 xs)"
    by (rule length_slot [OF z fl _ loc refl]) (simp add: i b2)
  with write_name_and_type_Inr [OF n] show ?case by simp
next
  case (8 h key s b check_keys)
  then show ?case by (auto simp: success_simps)
next
  case (10 h key string_data subtype b check_keys)
  then show ?case by (auto simp: success_simps Let_def split: if_splits)
next
  case (12 h key data b check_keys)
  then show ?case by (auto simp: success_simps oid_bytes_def)
next
  case (13 h key ns oid b check_keys)
  from 13(4) show ?case by simp
next
  case (14 h key code_str scope b check_keys)
  from 14(3) show ?case by simp
next
  case (15 h key b check_keys)
  then show ?case by (auto simp: success_simps)
next
  case (16 h key b check_keys)
  then show ?case by (auto simp: success_simps)
next
  case (17 h key seconds incr b check_keys)
  then show ?case
    by (auto simp: success_simps host_call_def uint_kept_def uint_of_def split: sum.splits)
next
  case (18 h key t b check_keys)
  then show ?case by (auto simp: success_simps)
next
  case (25 h b hash check_keys move_id)
  from 25(5,6,8) obtain b1 b2 b3 loc where sp: "bson_buffer_save_space b 4 = Some (loc, b1)"
    and lp: "rb_hash_foreach h kvs True b1 check_keys = Inr b2"
    and z: "SAFE_WRITE b2 [0] = Inr b3"
    and fl: "SAFE_WRITE_AT_POS b3 loc
        (le_bytes 4 (int (length (buffer b3)) - int (length (buffer b)))) = Inr b'"
    by (auto simp: write_doc.simps and_then_eq_Inr Let_def
        comma_expression_is_zero_def bson_buffer_get_position_def
        split: option.splits if_splits)
  have i: "buffer b2 = buffer b1 @ elements kvs"
    by (rule 25(3) [OF refl sp refl])
      (use 25(4-7) lp in \<open>auto simp: comma_expression_is_zero_def\<close>)
  from sp have b1: "buffer b1 = buffer b @ replicate 4 0" and loc: "loc = length (buffer b)"
    by (auto simp: save_space_Some)
  show ?case
    by (rule length_slot [OF z fl _ loc refl]) (simp add: i b1)
next
  case (27 h key v rest allow_id b check_keys)
  from 27(6) obtain b1 where w: "write_element h key v b check_keys allow_id = Inr b1"
    and r: "rb_hash_foreach h rest allow_id b1 check_keys = Inr b'"
    by (auto simp: and_then_eq_Inr)
  have 1: "buffer b1 = buffer b @ tag v # name_of key @ [0] @ payload v"
    by (rule 27(1)) (use 27(3-5) w in auto)
  have 2: "buffer b' = buffer b1 @ elements rest"
    by (rule 27(2)) (use 27(3-5) r in auto)
  from 1 2 show ?case by simp
next
  case (29 h i item rest b check_keys)
  from 29(5) obtain b1 where
    w: "write_element h (KString (INT2STRING i)) item b check_keys True = Inr b1"
    and r: "write_items h (Suc i) rest b1 check_keys = Inr b'"
    by (auto simp: and_then_eq_Inr)
  have 1: "buffer b1 = buffer b @ tag item # name_of (KString (INT2STRING i)) @ [0] @ payload item"
    by (rule 29(1)) (use 29(3,4) w in auto)
  have 2: "buffer b' = buffer b1 @ items (Suc i) rest"
    by (rule 29(2)) (use 29(3,4) r in auto)
  from 1 2 show ?case by (simp add: name_of_def key_name_def)
qed simp_all

section \<open>Reading what was written\<close>

lemma int32_id: "- (2 ^ 31) \<le> i \<Longrightarrow> i < 2 ^ 31 \<Longrightarrow> int32 i = i"
  by (simp add: int32_def sint_sbintrunc' signed_take_bit_int_eq_self)

lemma at_append: "at buf p (s @ t) = (at buf p s \<and> at buf (p + int (length s)) t)"
proof (cases "0 \<le> p")
  case True
  then obtain q where p: "p = int q" by (metis nat_0_le)
  have split: "take (length s + length t) (drop q buf) = s @ t \<longleftrightarrow>
        take (length s) (drop q buf) = s \<and> take (length t) (drop (q + length s) buf) = t"
    if "q + (length s + length t) \<le> length buf"
  proof -
    have "take (length s + length t) (drop q buf)
        = take (length s) (drop q buf) @ take (length t) (drop (length s) (drop q buf))"
      by (simp add: take_add)
    moreover have "length (take (length s) (drop q buf)) = length s"
      using that by simp
    ultimately show ?thesis
      by (auto simp: add.commute append_eq_append_conv)
  qed
  show ?thesis
    using split by (auto simp: at_def p nat_add_distrib simp flip: of_nat_add)
next
  case False
  then show ?thesis by (simp add: at_def)
qed

lemma at_Cons: "at buf p (x # t) = (byte_at buf p = Inr x \<and> at buf (p + 1) t)"
proof -
  have "at buf p ([x] @ t) = (at buf p [x] \<and> at buf (p + 1) t)"
    by (simp only: at_append) simp
  moreover have "at buf p [x] = (byte_at buf p = Inr x)"
    by (cases "drop (nat p) buf")
      (auto simp: at_def byte_at_def hd_drop_conv_nth [symmetric] Suc_le_eq
        dest: arg_cong [where f = hd])
  ultimately show ?thesis by simp
qed

lemma at_drop: "at buf p s \<Longrightarrow> \<exists>rest. drop (nat p) buf = s @ rest"
  by (metis append_take_drop_id at_def)

lemma at_prefix: "at (pre @ s) (int (length pre)) s"
  by (simp add: at_def)

lemma bytes_at_at: "at buf p s \<Longrightarrow> n = length s \<Longrightarrow> bytes_at buf p n = Inr s"
  by (auto simp: at_def bytes_at_def)

lemma read_int_at:
  "at buf p (le_bytes 4 i) \<Longrightarrow> - (2 ^ 31) \<le> i \<Longrightarrow> i < 2 ^ 31 \<Longrightarrow> read_int buf p = Inr i"
  by (simp add: read_int_def bytes_at_at [where s = "le_bytes 4 i"] sint32_le_bytes)

lemma strlen_at:
  "at buf p (s @ [0]) \<Longrightarrow> 0 \<notin> set s \<Longrightarrow> strlen buf p = Inr (int (length s))"
proof -
  assume a: "at buf p (s @ [0])" and s: "0 \<notin> set s"
  from at_drop [OF a] obtain rest where d: "drop (nat p) buf = s @ 0 # rest" by auto
  from a have "0 \<le> p" "nat p < length buf" by (auto simp: at_def)
  with d s show ?thesis by (simp add: strlen_def)
qed

lemma rb_str_new_at: "at buf p s \<Longrightarrow> n = int (length s) \<Longrightarrow> rb_str_new buf p n = Inr s"
  by (simp add: rb_str_new_def bytes_at_at)

lemma strcmp_eq_at:
  "0 \<notin> set lit \<Longrightarrow> 0 \<notin> set k \<Longrightarrow> at buf p (k @ [0]) \<Longrightarrow> strcmp_eq buf p lit = Inr (k = lit)"
proof (induction lit arbitrary: k p)
  case Nil
  then show ?case by (cases k) (auto simp: at_Cons)
next
  case (Cons l ls)
  show ?case
  proof (cases k)
    case Nil
    with Cons.prems show ?thesis by (auto simp: at_Cons)
  next
    case (Cons x xs)
    with Cons.prems Cons.IH [of xs "p + 1"] show ?thesis by (auto simp: at_Cons)
  qed
qed

lemma strcmp_eq_first: "byte_at buf p = Inr x \<Longrightarrow> x \<noteq> l \<Longrightarrow> strcmp_eq buf p (l # ls) = Inr False"
  by simp

lemma digit_not_NUL: "d < 10 \<Longrightarrow> (48 + of_nat d :: byte) \<noteq> 0"
proof -
  assume "d < 10"
  then have "d \<in> {0, 1, 2, 3, 4, 5, 6, 7, 8, 9}" by auto
  then show ?thesis by auto
qed

lemma INT2STRING_no_NUL: "0 \<notin> set (INT2STRING i)"
proof (induction i rule: INT2STRING.induct)
  case (1 i)
  show ?case
  proof (cases "i < 10")
    case True
    then show ?thesis by (subst INT2STRING.simps) (simp add: digit_not_NUL)
  next
    case False
    with 1 show ?thesis
      by (subst INT2STRING.simps) (simp add: digit_not_NUL)
  qed
qed

lemma tag_not_dollar: "tag v \<noteq> 0x24"
  by (cases v) auto


lemma cstr_Cons: "cstr (x # xs) = (if x = 0 then [] else x # cstr xs)"
  by (simp add: cstr_def)

lemma not_ref_split:
  assumes "not_ref post"
  obtains k rest where "post = k @ 0 # rest" "0 \<notin> set k" "k \<noteq> bytes_of ''$ref''"
proof -
  from assms have z: "0 \<in> set post" and c: "cstr post \<noteq> bytes_of ''$ref''"
    by (simp_all add: not_ref_def)
  from z have "dropWhile (\<lambda>b. b \<noteq> 0) post \<noteq> []"
    by (simp add: dropWhile_eq_Nil_conv)
  then obtain x rest where d: "dropWhile (\<lambda>b. b \<noteq> 0) post = x # rest"
    by (cases "dropWhile (\<lambda>b. b \<noteq> 0) post") auto
  from hd_dropWhile [of "\<lambda>b. b \<noteq> 0" post] d have "x = 0" by auto
  with d have "post = cstr post @ 0 # rest"
    using takeWhile_dropWhile_id [of "\<lambda>b. b \<noteq> 0" post] by (simp add: cstr_def)
  moreover have "0 \<notin> set (cstr post)"
    by (auto simp: cstr_def dest: set_takeWhileD)
  ultimately show ?thesis using c that by blast
qed

lemma strcmp_not_ref:
  assumes "at buf p post" "not_ref post"
  shows "strcmp_eq buf p (bytes_of ''$ref'') = Inr False"
proof -
  from assms(2) obtain k rest where p: "post = k @ 0 # rest" "0 \<notin> set k"
      "k \<noteq> bytes_of ''$ref''"
    by (rule not_ref_split)
  from assms(1) p(1) have "at buf p (k @ [0])"
    using at_append [of buf p "k @ [0]" rest] by simp
  with p(2) have "strcmp_eq buf p (bytes_of ''$ref'') = Inr (k = bytes_of ''$ref'')"
    by (intro strcmp_eq_at) (simp_all add: bytes_of_def)
  with p(3) show ?thesis by simp
qed

lemma not_ref_elements [simp]: "not_ref (elements rest @ 0 # post)"
proof (cases rest)
  case Nil
  then show ?thesis by (simp add: not_ref_def cstr_Cons bytes_of_def)
next
  case (Cons kv rest')
  obtain k v where "kv = (k, v)" by (cases kv)
  with Cons tag_not_dollar [of v] show ?thesis
    by (simp add: not_ref_def cstr_Cons bytes_of_def)
qed

lemma not_ref_items [simp]: "not_ref (items i xs @ 0 # post)"
proof (cases xs)
  case Nil
  then show ?thesis by (simp add: not_ref_def cstr_Cons bytes_of_def)
next
  case (Cons x xs')
  with tag_not_dollar [of x] show ?thesis
    by (simp add: not_ref_def cstr_Cons bytes_of_def)
qed

lemma not_ref_name:
  "0 \<notin> set name \<Longrightarrow> t # name \<noteq> bytes_of ''$ref'' \<Longrightarrow> not_ref (t # name @ 0 # rest)"
  by (auto simp: not_ref_def cstr_Cons bytes_of_def)

lemma element_assignment_new:
  "KString s \<notin> fst ` set acc \<Longrightarrow> element_assignment acc s v = acc @ [(KString s, v)]"
  by (simp add: element_assignment_def)

lemma le_uint_uint32: "le_uint (le_bytes 4 (uint (w :: 32 word))) = uint w"
proof -
  have "uint w mod 256 ^ 4 = uint w"
    using uint_bounded [of w] by simp
  then show ?thesis by (simp only: le_uint_le_bytes)
qed

lemma get_value_scalar:
  "t \<noteq> 3 \<Longrightarrow> t \<noteq> 4 \<Longrightarrow> t \<noteq> 15 \<Longrightarrow>
   get_value (Suc n) h c buf base position t = get_scalar h c buf base position t"
  by (simp add: get_value.simps(2))

lemma decode_scalar:
  assumes v: "lossless h v" "tag v \<noteq> 3" "tag v \<noteq> 4"
    and pos: "0 \<le> position"
    and len: "position + int (length (payload v)) < 2 ^ 31"
    and at: "at buf (base + position) (payload v)"
  shows "get_scalar h c buf base position (tag v) = Inr (v, position + int (length (payload v)))"
proof (cases v)
  case (VInteger i)
  show ?thesis
  proof (cases "i > 2147483647 \<or> i < - 2147483648")
    case True
    with at VInteger have "bytes_at buf (base + position) 8 = Inr (le_bytes 8 i)"
      by (simp add: bytes_at_at)
    with True v VInteger pos len show ?thesis
      by (simp add: get_scalar_def sint64_le_bytes int32_id)
  next
    case False
    with at VInteger have "read_int buf (base + position) = Inr i"
      by (simp add: read_int_at)
    with False VInteger pos len show ?thesis by (simp add: get_scalar_def int32_id)
  qed
next
  case (VBoolean t)
  with at have "byte_at buf (base + position) = Inr (if t then 1 else 0)"
    by (simp add: at_Cons)
  with VBoolean pos len show ?thesis by (simp add: get_scalar_def int32_id)
next
  case (VFloat d)
  with at have "bytes_at buf (base + position) 8 = Inr (le_bytes 8 (uint d))"
    by (simp add: bytes_at_at)
  with VFloat pos len show ?thesis by (simp add: get_scalar_def word64_le_bytes int32_id)
next
  case VNil
  then show ?thesis by (simp add: get_scalar_def)
next
  case (VString s)
  from at VString have a: "at buf (base + position) (le_bytes 4 (int (length s) + 1))"
    "at buf (base + position + 4) s"
    by (simp_all add: at_append)
  from len pos VString have l: "int (length s) + 5 < 2 ^ 31 - position" by simp
  with pos a(1) have "read_int buf (base + position) = Inr (int (length s) + 1)"
    by (simp add: read_int_at)
  moreover from a(2) have "rb_str_new buf (base + (position + 4)) (int (length s)) = Inr s"
    by (simp add: rb_str_new_at add.assoc)
  ultimately show ?thesis using VString pos l by (simp add: get_scalar_def int32_id)
next
  case (VBinary s st)
  with v have st: "0 \<le> st" "st < 256" by simp_all
  then have u: "uint (word_of_int st :: byte) = st"
    by (simp add: uint_word_of_int take_bit_eq_mod)
  show ?thesis
  proof (cases "(word_of_int st :: byte) = 2")
    case True
    with at VBinary have a: "at buf (base + position) (le_bytes 4 (int (length s) + 4))"
      "byte_at buf (base + (position + 4)) = Inr 2" "at buf (base + position + 9) s"
      by (simp_all add: at_append at_Cons add.assoc)
    from len pos VBinary True have l: "int (length s) + 9 < 2 ^ 31 - position" by simp
    with pos a(1) have "read_int buf (base + position) = Inr (int (length s) + 4)"
      by (simp add: read_int_at)
    moreover from a(3) have "rb_str_new buf (base + position + 9) (int (length s)) = Inr s"
      by (simp add: rb_str_new_at)
    ultimately show ?thesis using VBinary True a(2) u pos l
      by (simp add: get_scalar_def int32_id)
  next
    case False
    with at VBinary have a: "at buf (base + position) (le_bytes 4 (int (length s)))"
      "byte_at buf (base + (position + 4)) = Inr (word_of_int st)"
      "at buf (base + position + 5) s"
      by (simp_all add: at_append at_Cons add.assoc)
    from len pos VBinary False have l: "int (length s) + 5 < 2 ^ 31 - position" by simp
    with pos a(1) have "read_int buf (base + position) = Inr (int (length s))"
      by (simp add: read_int_at)
    moreover from a(3) have "rb_str_new buf (base + position + 5) (int (length s)) = Inr s"
      by (simp add: rb_str_new_at)
    ultimately show ?thesis using VBinary False a(2) u pos l
      by (simp add: get_scalar_def int32_id)
  qed
next
  case (VObjectId data)
  with v have "length data = 12" by simp
  with at VObjectId have "bytes_at buf (base + position) 12 = Inr data"
    by (simp add: bytes_at_at oid_bytes_def)
  with VObjectId \<open>length data = 12\<close> pos len show ?thesis
    by (simp add: get_scalar_def oid_bytes_def int32_id)
next
  case VMaxKey
  then show ?thesis by (simp add: get_scalar_def)
next
  case VMinKey
  then show ?thesis by (simp add: get_scalar_def)
next
  case (VTimestamp seconds incr)
  with v obtain ws wi where w: "seconds = VInteger (uint (ws :: 32 word))"
      "incr = VInteger (uint (wi :: 32 word))"
    by (auto simp: uint_kept_def split: sum.splits)
  with at VTimestamp have a: "at buf (base + position) (le_bytes 4 (uint wi))"
    "at buf (base + position + 4) (le_bytes 4 (uint ws))"
    by (simp_all add: at_append uint_of_def)
  then have "bytes_at buf (base + position) 4 = Inr (le_bytes 4 (uint wi))"
    "bytes_at buf (base + position + 4) 4 = Inr (le_bytes 4 (uint ws))"
    by (simp_all add: bytes_at_at)
  with VTimestamp w pos len show ?thesis
    by (simp add: get_scalar_def le_uint_uint32 int32_id uint_of_def)
next
  case (VTime t)
  with at have "bytes_at buf (base + position) 8 = Inr (le_bytes 8 t)"
    by (simp add: bytes_at_at)
  with v VTime pos len show ?thesis by (simp add: get_scalar_def sint64_le_bytes int32_id)
qed (use v in simp_all)

lemma tag_not_code [simp]: "tag v \<noteq> 15"
  by (cases v) auto

lemma decode_scalar_value:
  assumes "lossless h v" "tag v \<noteq> 3" "tag v \<noteq> 4" "0 \<le> position"
    and "position + int (length (payload v)) < 2 ^ 31"
    and "at buf (base + position) (payload v @ post)" "0 < n"
  shows "get_value n h c buf base position (tag v) = Inr (v, position + int (length (payload v)))"
proof -
  from assms(7) obtain n' where n: "n = Suc n'" by (cases n) auto
  from assms(6) have "at buf (base + position) (payload v)"
    by (simp add: at_append)
  with assms(1-5) show ?thesis
    unfolding n by (simp add: get_value_scalar decode_scalar)
qed

lemma first_name_not_ref:
  assumes "lossless_entries h kvs" "\<not> starts_with_ref kvs"
    and "at buf p (elements kvs @ 0 # post)" "not_ref post"
  shows "strcmp_eq buf (p + 1) (bytes_of ''$ref'') = Inr False"
proof (cases kvs)
  case Nil
  with assms(3) have "at buf (p + 1) post" by (simp add: at_Cons)
  then show ?thesis using assms(4) by (rule strcmp_not_ref)
next
  case (Cons kv rest)
  obtain k v where kv: "kv = (k, v)" by (cases kv)
  with assms(1) Cons obtain s where k: "k = KString s" "0 \<notin> set s"
    by (cases k) (auto simp: plain_key_def)
  from assms(2) Cons kv k have ne: "s \<noteq> bytes_of ''$ref''"
    by (simp add: starts_with_ref_def)
  from assms(3) Cons kv k
  have "at buf (p + 1) (s @ 0 # payload v @ elements rest @ 0 # post)"
    by (simp add: at_Cons name_of_def key_name_def)
  moreover from k(2) ne have "not_ref (s @ 0 # payload v @ elements rest @ 0 # post)"
    by (simp add: not_ref_def)
  ultimately show ?thesis by (rule strcmp_not_ref)
qed

lemma at_prefixD: "at buf p (s @ t) \<Longrightarrow> at buf p s"
  by (simp add: at_append)

lemma at_suffixD: "at buf p (s @ t) \<Longrightarrow> at buf (p + int (length s)) t"
  by (simp add: at_append)

lemma at_ConsD:
  "at buf p (x # t) \<Longrightarrow> byte_at buf p = Inr x"
  "at buf p (x # t) \<Longrightarrow> at buf (p + 1) t"
  by (simp_all add: at_Cons)

lemma decodes:
  "lossless h v \<Longrightarrow> 0 \<le> position \<Longrightarrow> position + int (length (payload v)) < 2 ^ 31 \<Longrightarrow>
   at buf (base + position) (payload v @ post) \<Longrightarrow> not_ref post \<Longrightarrow> fuel v \<le> n \<Longrightarrow>
   get_value n h c buf base position (tag v) = Inr (v, position + int (length (payload v)))"
  "lossless_entries h kvs \<Longrightarrow> distinct (map fst (acc @ kvs)) \<Longrightarrow> 0 \<le> position \<Longrightarrow>
   max_position = position + int (length (elements kvs)) \<Longrightarrow> max_position < 2 ^ 31 \<Longrightarrow>
   at buf (base + position) (elements kvs @ 0 # post) \<Longrightarrow> fuel_entries kvs \<le> n \<Longrightarrow>
   elements_loop n h c buf base position max_position acc = Inr (VHash (acc @ kvs))"
  "lossless_items h xs \<Longrightarrow> 0 \<le> position \<Longrightarrow>
   end_position = position + int (length (items i xs)) \<Longrightarrow> end_position + 1 < 2 ^ 31 \<Longrightarrow>
   at buf (base + position) (items i xs @ 0 # post) \<Longrightarrow> fuel_items xs \<le> n \<Longrightarrow>
   array_loop n h c buf base position end_position a = Inr (VArray (a @ xs), end_position + 1)"
proof (induction v and kvs and i xs
    arbitrary: n buf base position post and n buf base position post acc max_position
      and n buf base position post a end_position
    rule: payload_elements_items.induct)
  case (4 kvs)
  let ?els = "elements kvs" and ?q = "base + position"
  from 4(7) obtain n' where n: "n = Suc n'" and f: "fuel_entries kvs \<le> n'"
    by (cases n) auto
  from 4(2) have l: "lossless_entries h kvs" "distinct (map fst kvs)" "\<not> starts_with_ref kvs"
    by simp_all
  from 4(5) have a: "at buf ?q (le_bytes 4 (int (length ?els) + 5))"
    "at buf (?q + 4) (?els @ 0 # post)"
    by (simp_all add: document_def at_append)
  from 4(3,4) have b: "int (length ?els) + 5 < 2 ^ 31 - position"
    by (simp add: document_def)
  have r: "read_int buf ?q = Inr (int (length ?els) + 5)"
    using a(1) b 4(3) by (simp add: read_int_at)
  have s: "strcmp_eq buf (?q + 5) (bytes_of ''$ref'') = Inr False"
    using first_name_not_ref [OF l(1,3) a(2) 4(6)] by (simp add: add.assoc)
  have e: "elements_loop n' h c buf (?q + 4) 0 (int (length ?els)) [] = Inr (VHash ([] @ kvs))"
    by (rule 4(1) [where post = post]) (use l a(2) b 4(3) f in auto)
  have i: "int32 (int (length ?els)) = int (length ?els)"
    "int32 (position + (int (length ?els) + 5)) = position + (int (length ?els) + 5)"
    using b 4(3) by (simp_all add: int32_id)
  show ?case
    unfolding n by (simp add: get_value.simps(2) r s e i document_def)
next
  case (5 xs)
  let ?its = "items 0 xs" and ?q = "base + position"
  from 5(7) obtain n' where n: "n = Suc n'" and f: "fuel_items xs \<le> n'"
    by (cases n) auto
  from 5(5) have a: "at buf ?q (le_bytes 4 (int (length ?its) + 5))"
    "at buf (?q + 4) (?its @ 0 # post)"
    by (simp_all add: document_def at_append)
  from 5(3,4) have b: "int (length ?its) + 5 < 2 ^ 31 - position"
    by (simp add: document_def)
  have r: "read_int buf ?q = Inr (int (length ?its) + 5)"
    using a(1) b 5(3) by (simp add: read_int_at)
  have e: "array_loop n' h c buf base (position + 4) (position + 4 + int (length ?its)) []
      = Inr (VArray ([] @ xs), position + 4 + int (length ?its) + 1)"
    by (rule 5(1) [where post = post]) (use 5(2,3) a(2) b f in \<open>auto simp: add.assoc\<close>)
  have i: "int32 (int32 (position + (int (length ?its) + 5)) - 1)
      = position + 4 + int (length ?its)"
    "int32 (position + 4) = position + 4"
    using b 5(3) by (simp_all add: int32_id)
  show ?case
    unfolding n by (simp add: get_value.simps(2) r e i document_def)
next
  case 12
  then show ?case by (cases n) (simp_all add: elements_loop.simps(2))
next
  case (13 k v rest)
  let ?q = "base + position"
  from 13(9) obtain n' where n: "n = Suc n'" and f: "fuel v \<le> n'" "fuel_entries rest \<le> n'"
    by (cases n) auto
  from 13(3) obtain s where k: "k = KString s" "0 \<notin> set s"
    by (cases k) (auto simp: plain_key_def)
  from 13(3) have l: "lossless h v" "lossless_entries h rest" by simp_all
  let ?p2 = "position + (int (length s) + 2)"
  let ?p3 = "?p2 + int (length (payload v))"
  from 13(6,7) have b: "int (length s) + 2 + int (length (payload v))
      + int (length (elements rest)) < 2 ^ 31 - position"
    by (simp add: k name_of_def key_name_def)
  from 13(8) have t: "at buf ?q (tag v # (s @ [0]) @ payload v @ elements rest @ 0 # post)"
    by (simp add: k name_of_def key_name_def)
  note t0 = at_ConsD(2) [OF t]
  note t1 = at_suffixD [OF t0]
  from t1 have t2: "at buf (base + ?p2) (payload v @ elements rest @ 0 # post)"
    by (simp add: algebra_simps)
  from at_suffixD [OF t2]
  have t3: "at buf (base + ?p3) (elements rest @ 0 # post)"
    by (simp add: algebra_simps)
  note a = at_ConsD(1) [OF t] at_prefixD [OF t0] at_prefixD [OF at_prefixD [OF t0]] t2 t3
  have i: "int32 (position + 1) = position + 1" "int32 (int (length s)) = int (length s)"
    "int32 (position + 1 + int32 (int (length s) + 1)) = ?p2"
    "int32 (position + (1 + int32 (int (length s) + 1))) = ?p2"
    using b 13(5) by (simp_all add: int32_id)
  have hd: "element_header buf base position = Inr (tag v, s, ?p2)"
    using a(1) strlen_at [OF a(2) k(2)] rb_str_new_at [OF a(3) refl]
    by (simp add: element_header_def i add.assoc)
  have gv: "get_value n' h c buf base ?p2 (tag v) = Inr (v, ?p3)"
    by (rule 13(1) [where post = "elements rest @ 0 # post"])
      (use l(1) 13(5) b a(4) f(1) in auto)
  from 13(4) have nk: "KString s \<notin> fst ` set acc"
    by (auto simp: k)
  have lp: "elements_loop n' h c buf base ?p3 max_position (acc @ [(k, v)])
      = Inr (VHash ((acc @ [(k, v)]) @ rest))"
    by (rule 13(2) [where post = post])
      (use l(2) 13(4-7) b a(5) f(2) in \<open>auto simp: k name_of_def key_name_def\<close>)
  from 13(6) have lt: "position < max_position" by simp
  from lp show ?case
    unfolding n
    by (simp add: elements_loop.simps(2) lt hd gv element_assignment_new [OF nk] k)
next
  case (14 i)
  then show ?case by (cases n) (simp_all add: array_loop.simps(2) int32_id)
next
  case (15 i x xs)
  let ?q = "base + position" and ?s = "INT2STRING i"
  from 15(8) obtain n' where n: "n = Suc n'" and f: "fuel x \<le> n'" "fuel_items xs \<le> n'"
    by (cases n) auto
  have k: "0 \<notin> set ?s" by (rule INT2STRING_no_NUL)
  from 15(3) have l: "lossless h x" "lossless_items h xs" by simp_all
  let ?p2 = "position + (int (length ?s) + 2)"
  let ?p3 = "?p2 + int (length (payload x))"
  from 15(5,6) have b: "int (length ?s) + 2 + int (length (payload x))
      + int (length (items (Suc i) xs)) + 1 < 2 ^ 31 - position"
    by simp
  from 15(7) have t: "at buf ?q (tag x # (?s @ [0]) @ payload x @ items (Suc i) xs @ 0 # post)"
    by simp
  note t0 = at_ConsD(2) [OF t]
  note t1 = at_suffixD [OF t0]
  from t1 have t2: "at buf (base + ?p2) (payload x @ items (Suc i) xs @ 0 # post)"
    by (simp add: algebra_simps)
  from at_suffixD [OF t2]
  have t3: "at buf (base + ?p3) (items (Suc i) xs @ 0 # post)"
    by (simp add: algebra_simps)
  note a = at_ConsD(1) [OF t] at_prefixD [OF t0] t2 t3
  have i: "int32 (position + 1) = position + 1" "int32 (int (length ?s)) = int (length ?s)"
    "int32 (position + 1 + int32 (int (length ?s) + 1)) = ?p2"
    "int32 (position + (1 + int32 (int (length ?s) + 1))) = ?p2"
    using b 15(4) by (simp_all add: int32_id)
  have hd: "item_header buf base position = Inr (tag x, ?p2)"
    using a(1) strlen_at [OF a(2) k]
    by (simp add: item_header_def i add.assoc)
  have gv: "get_value n' h c buf base ?p2 (tag x) = Inr (x, ?p3)"
    by (rule 15(1) [where post = "items (Suc i) xs @ 0 # post"])
      (use l(1) 15(4) b a(3) f(1) in auto)
  have lp: "array_loop n' h c buf base ?p3 end_position (a @ [x])
      = Inr (VArray ((a @ [x]) @ xs), end_position + 1)"
    by (rule 15(2) [where post = post]) (use l(2) 15(4-6) b a(4) f(2) in auto)
  from 15(5) have lt: "position < end_position" by simp
  show ?case
    unfolding n by (simp add: array_loop.simps(2) lt hd gv lp)
qed (rule decode_scalar_value; simp)+

section \<open>Round trip\<close>

lemma at_tail: "p = int (length pre) \<Longrightarrow> at (pre @ s) p s"
  by (simp add: at_def)

lemma at_middle: "p = int (length pre) \<Longrightarrow> at (pre @ s @ t) p s"
  by (simp add: at_def)

lemma write_doc_max_size:
  assumes "write_doc h b d ck mv = Inr r"
  shows "max_size r = max_size b"
proof -
  have "capped (max_size b) (write_doc h b d ck mv) (write_doc h (b\<lparr>max_size := max_size b\<rparr>) d ck mv)"
    by (rule capped_encoder)
  with assms have "r = r\<lparr>max_size := max_size b\<rparr>"
    by (simp add: capped_def)
  then show ?thesis
    by (metis bson_buffer.select_convs(2) bson_buffer.surjective bson_buffer.update_convs(2))
qed

lemma serialize_document:
  assumes "method_serialize h mem (VHash kvs) False False M = Inr bs" "lossless_entries h kvs"
  shows "bs = document (elements kvs)" "int (length bs) \<le> M"
proof -
  from assms(1) obtain mm where mem: "mem = Some mm"
    by (cases mem) (simp_all add: method_serialize_def)
  define b where "b = bson_buffer_set_max_size (bson_buffer_new mm) M"
  from assms(1) mem obtain r where r: "write_doc h b (VHash kvs) False False = Inr r"
    and bs: "bs = buffer r"
    by (auto simp: method_serialize_def b_def bson_buffer_get_position_def elim!: and_thenE)
  have "buffer r = buffer b @ document (elements kvs)"
    by (rule encodes(3)) (use assms(2) r in auto)
  then show "bs = document (elements kvs)"
    by (simp add: bs b_def bson_buffer_new_def bson_buffer_set_max_size_def)
  from write_doc_within_max_size [OF r] write_doc_max_size [OF r]
  show "int (length bs) \<le> M"
    by (simp add: bs b_def bson_buffer_new_def bson_buffer_set_max_size_def)
qed

lemma deserialize_elements:
  assumes "lossless_entries h kvs" "distinct (map fst kvs)" "length hdr = 4"
    and "int (length (elements kvs)) + 5 < 2 ^ 31"
    and "compile_regex_option opts = Inr c" "fuel_entries kvs \<le> n"
  shows "method_deserialize n h (hdr @ elements kvs @ [0]) opts = Inr (VHash kvs)"
proof -
  have "elements_loop n h c (hdr @ elements kvs @ [0]) 4 0 (int (length (elements kvs))) []
      = Inr (VHash ([] @ kvs))"
    by (rule decodes(2) [where post = "[]"])
      (use assms in \<open>auto intro!: at_tail\<close>)
  with assms(3-5) show ?thesis
    by (simp add: method_deserialize_def elements_to_hash_def int32_id)
qed

lemma compile_regex_option_empty [simp]: "compile_regex_option (VHash []) = Inr True"
  by (simp add: compile_regex_option_def has_key_def)

text \<open>
  C1, as the claim states it, fails for an embedded document whose first key is \<open>$ref\<close>:
  the decoder takes it for the sub-document of a DBRef and returns a DBRef in its place.
\<close>

theorem embedded_ref_document_becomes_DBRef:
  "method_serialize ruby (Some 64)
     (VHash [(KString (bytes_of ''a''),
        VHash [(KString (bytes_of ''$ref''), VString (bytes_of ''c'')),
               (KString (bytes_of ''$id''), VObjectId [1, 2, 3, 4, 5, 6, 7, 8, 9, 10, 11, 12])])])
     False False 4194304
   = Inr ([42, 0, 0, 0] @ [0x03] @ bytes_of ''a'' @ [0] @ [34, 0, 0, 0]
        @ [0x02] @ bytes_of ''$ref'' @ [0] @ [2, 0, 0, 0] @ bytes_of ''c'' @ [0]
        @ [0x07] @ bytes_of ''$id'' @ [0] @ [1, 2, 3, 4, 5, 6, 7, 8, 9, 10, 11, 12] @ [0] @ [0])
   \<and> method_deserialize 4 ruby
       ([42, 0, 0, 0] @ [0x03] @ bytes_of ''a'' @ [0] @ [34, 0, 0, 0]
        @ [0x02] @ bytes_of ''$ref'' @ [0] @ [2, 0, 0, 0] @ bytes_of ''c'' @ [0]
        @ [0x07] @ bytes_of ''$id'' @ [0] @ [1, 2, 3, 4, 5, 6, 7, 8, 9, 10, 11, 12] @ [0] @ [0])
       (VHash [])
   = Inr (VHash [(KString (bytes_of ''a''),
        VDBRef (VString (bytes_of ''c'')) (VObjectId [1, 2, 3, 4, 5, 6, 7, 8, 9, 10, 11, 12]))])"
proof -
  have "method_deserialize 4 ruby
       [42, 0, 0, 0, 3, 97, 0, 34, 0, 0, 0, 2, 36, 114, 101, 102, 0, 2, 0, 0, 0, 99, 0,
        7, 36, 105, 100, 0, 1, 2, 3, 4, 5, 6, 7, 8, 9, 10, 11, 12, 0, 0] (VHash [])
   = Inr (VHash [(KString [97], VDBRef (VString [99])
        (VObjectId [1, 2, 3, 4, 5, 6, 7, 8, 9, 10, 11, 12]))])"
    by code_simp
  then show ?thesis
    by (simp add: buffer_simps encoder_simps oid_bytes_def upt_rec)
qed

text \<open>
  C1, amended. Let the document be built of the values of the subset, with strings
  without NUL as keys, distinct in every hash, Binary subtypes between 0 and 255,
  ObjectIds of twelve bytes, Timestamps whose seconds and increment are integers that
  \<open>NUM2UINT\<close> converts to themselves, and no embedded document whose first key is \<open>$ref\<close>.
  When serialize without \<open>check_keys\<close> and \<open>move_id\<close> and with the maximal size 4194304
  returns bytes, deserialize of these bytes, with an options hash and enough fuel, returns
  the document: the same entries in the same order.
\<close>

theorem lossless_round_trip:
  assumes "lossless_document h d"
    and "method_serialize h mem d False False 4194304 = Inr bs"
    and "compile_regex_option opts = Inr c" and "fuel d \<le> n"
  shows "method_deserialize n h bs opts = Inr d"
proof -
  from assms(1) obtain kvs where d: "d = VHash kvs" and l: "lossless_entries h kvs"
      "distinct (map fst kvs)"
    by (cases d) (simp_all add: lossless_document_def)
  from serialize_document [OF assms(2) [unfolded d] l(1)]
  have bs: "bs = le_bytes 4 (int (length (elements kvs)) + 5) @ elements kvs @ [0]"
    and len: "int (length bs) \<le> 4194304"
    by (simp_all add: document_def)
  from len have "int (length (elements kvs)) + 5 < 2 ^ 31"
    by (simp add: bs)
  with l assms(3,4) show ?thesis
    unfolding bs d by (intro deserialize_elements) simp_all
qed

theorem lossless_round_trip_witness:
  "method_deserialize 3 ruby
     ([22, 0, 0, 0, 2] @ bytes_of ''hello'' @ [0, 6, 0, 0, 0] @ bytes_of ''world'' @ [0, 0])
     (VHash [])
   = Inr (VHash [(KString (bytes_of ''hello''), VString (bytes_of ''world''))])"
proof -
  let ?d = "VHash [(KString (bytes_of ''hello''), VString (bytes_of ''world''))]"
  have l: "lossless_document ruby ?d"
    by (simp add: lossless_document_def plain_key_def bytes_of_def)
  have s: "method_serialize ruby (Some 64) ?d False False 4194304
    = Inr ([22, 0, 0, 0, 2] @ bytes_of ''hello'' @ [0, 6, 0, 0, 0] @ bytes_of ''world'' @ [0, 0])"
    by (simp add: buffer_simps encoder_simps upt_rec)
  have o: "compile_regex_option (VHash []) = Inr True"
    by simp
  have f: "fuel ?d \<le> 3"
    by simp
  show ?thesis
    using lossless_round_trip [OF l s o f] .
qed

section \<open>Reads of the decoder\<close>

text \<open>
  C2, as the claim states it, fails: no read is checked against the declared length. This
  input declares a frame of 5 bytes and has 12; the decoder reads the element that lies
  beyond the declared frame and returns it.
\<close>

theorem reads_beyond_declared_length:
  "method_deserialize 3 ruby [5, 0, 0, 0, 0x10, 97, 0, 1, 0, 0, 0, 0] (VHash [])
   = Inr (VHash [(KString [97], VInteger 1)])"
  by code_simp

lemma string_beyond_end:
  assumes "length hdr = 4" "0 \<notin> set name" "int (length rest) + 1 < len" "len < 2 ^ 31"
    and "int (length name) + int (length rest) + 10 < 2 ^ 31"
    and "compile_regex_option opts = Inr c"
  shows "method_deserialize (Suc (Suc n)) h (hdr @ [2] @ name @ [0] @ le_bytes 4 len @ rest) opts
     = Inl OutOfBounds"
proof -
  define buf where "buf = hdr @ [2] @ name @ [0] @ le_bytes 4 len @ rest"
  define p where "p = int (length name) + 2"
  have t: "at buf 4 (2 # (name @ [0]) @ le_bytes 4 len @ rest)"
    using assms(1) at_tail [of 4 hdr "2 # (name @ [0]) @ le_bytes 4 len @ rest"]
    by (simp add: buf_def)
  note t0 = at_ConsD(2) [OF t]
  from at_suffixD [OF t0] have t1: "at buf (4 + p) (le_bytes 4 len @ rest)"
    by (simp add: algebra_simps p_def)
  have i: "int32 (int (length name)) = int (length name)"
    "int32 1 = 1" "int32 (1 + int32 (int (length name) + 1)) = p"
    "int32 (len - 1) = len - 1" "int32 (p + 4) = p + 4"
    using assms(3-5) by (simp_all add: int32_id p_def)
  have hd: "element_header buf 4 0 = Inr (2, name, p)"
    using at_ConsD(1) [OF t] strlen_at [OF at_prefixD [OF t0] assms(2)]
      rb_str_new_at [OF at_prefixD [OF at_prefixD [OF t0]] refl]
    by (simp add: element_header_def i)
  have r: "read_int buf (4 + p) = Inr len"
    using at_prefixD [OF t1] assms(3,4) by (intro read_int_at) simp_all
  have s: "rb_str_new buf (8 + p) (len - 1) = Inl OutOfBounds"
    using assms(1,3) by (simp add: rb_str_new_def bytes_at_def buf_def p_def)
  have gv: "get_value (Suc n) h c buf 4 p 2 = Inl OutOfBounds"
    by (simp add: get_value_scalar get_scalar_def r s i)
  have "elements_loop (Suc (Suc n)) h c buf 4 0 mx [] = Inl OutOfBounds" if "0 < mx" for mx
    using that by (simp add: elements_loop.simps(2) [of "Suc n"] hd gv)
  with assms(1,5,6) show ?thesis
    by (simp add: method_deserialize_def elements_to_hash_def int32_id buf_def)
qed

text \<open>
  C2, amended. The decoder takes the input as a \<open>const char*\<close> and only reads it. It checks
  no read against the frame length that the leading int32 declares: for a serialized
  document of the subset above, any four bytes in place of the length give the same
  result; an input of at most 5 bytes yields the empty document whatever it declares; and
  a String element whose declared length exceeds the bytes that remain makes the decoder
  read beyond the end of the byte string (\<open>OutOfBounds\<close>), where the claim has a parse
  error.
\<close>

theorem no_bounds_check:
  "(lossless_document h d \<and> method_serialize h mem d False False 4194304 = Inr bs
      \<and> length hdr = 4 \<and> compile_regex_option opts = Inr c \<and> fuel d \<le> n \<longrightarrow>
      method_deserialize n h (hdr @ drop 4 bs) opts = Inr d)
   \<and> (length bson \<le> 5 \<and> compile_regex_option opts = Inr c \<longrightarrow>
      method_deserialize (Suc n) h bson opts = Inr (VHash []))
   \<and> (length hdr = 4 \<and> 0 \<notin> set name \<and> int (length rest) + 1 < len \<and> len < 2 ^ 31
      \<and> int (length name) + int (length rest) + 10 < 2 ^ 31
      \<and> compile_regex_option opts = Inr c \<longrightarrow>
      method_deserialize (Suc (Suc n)) h (hdr @ [2] @ name @ [0] @ le_bytes 4 len @ rest) opts
      = Inl OutOfBounds)"
proof -
  have 1: "method_deserialize n h (hdr @ drop 4 bs) opts = Inr d"
    if "lossless_document h d" and s: "method_serialize h mem d False False 4194304 = Inr bs"
      and "length hdr = 4" "compile_regex_option opts = Inr c" "fuel d \<le> n"
  proof -
    from that(1) obtain kvs where d: "d = VHash kvs" and l: "lossless_entries h kvs"
        "distinct (map fst kvs)"
      by (cases d) (simp_all add: lossless_document_def)
    from serialize_document [OF s [unfolded d] l(1)]
    have bs: "bs = le_bytes 4 (int (length (elements kvs)) + 5) @ elements kvs @ [0]"
      and len: "int (length bs) \<le> 4194304"
      by (simp_all add: document_def)
    from len have "int (length (elements kvs)) + 5 < 2 ^ 31"
      by (simp add: bs)
    with l that(3-5) show ?thesis
      unfolding bs d by (simp add: deserialize_elements)
  qed
  have 2: "method_deserialize (Suc n) h bson opts = Inr (VHash [])"
    if "length bson \<le> 5" "compile_regex_option opts = Inr c"
    using that
    by (simp add: method_deserialize_def elements_to_hash_def elements_loop.simps int32_id)
  from 1 2 string_beyond_end [of hdr name rest len opts c n h] show ?thesis
    by blast
qed

theorem no_bounds_check_witness:
  "method_deserialize 3 ruby
     ([200, 0, 0, 0, 2] @ bytes_of ''hello'' @ [0, 6, 0, 0, 0] @ bytes_of ''world'' @ [0, 0])
     (VHash [])
   = Inr (VHash [(KString (bytes_of ''hello''), VString (bytes_of ''world''))])
   \<and> method_deserialize (Suc 0) ruby [200, 0, 0, 0] (VHash []) = Inr (VHash [])
   \<and> method_deserialize (Suc (Suc 0)) ruby ([16, 0, 0, 0] @ [2] @ [97] @ [0] @ le_bytes 4 6
       @ [119, 0, 0]) (VHash []) = Inl OutOfBounds"
proof -
  let ?d = "VHash [(KString (bytes_of ''hello''), VString (bytes_of ''world''))]"
  have l: "lossless_document ruby ?d"
    by (simp add: lossless_document_def plain_key_def bytes_of_def)
  have s: "method_serialize ruby (Some 64) ?d False False 4194304
    = Inr ([22, 0, 0, 0, 2] @ bytes_of ''hello'' @ [0, 6, 0, 0, 0] @ bytes_of ''world'' @ [0, 0])"
    by (simp add: buffer_simps encoder_simps upt_rec)
  show ?thesis
    using no_bounds_check [of ruby ?d "Some 64"
        "[22, 0, 0, 0, 2] @ bytes_of ''hello'' @ [0, 6, 0, 0, 0] @ bytes_of ''world'' @ [0, 0]"
        "[200, 0, 0, 0]" "VHash []" True 3 "[200, 0, 0, 0]" "[97]" "[119, 0, 0]" 6]
      no_bounds_check [of ruby ?d "Some 64"
        "[22, 0, 0, 0, 2] @ bytes_of ''hello'' @ [0, 6, 0, 0, 0] @ bytes_of ''world'' @ [0, 0]"
        "[16, 0, 0, 0]" "VHash []" True 0 "[200, 0, 0, 0]" "[97]" "[119, 0, 0]" 6] l s
    by simp
qed

end
